theory Spec2Isabelle
  imports Complex_Main "HOL-Library.Multiset"
begin

section \<open>Data model of \<^verbatim>\<open>src/lib/services/ladder.ts\<close>\<close>

text \<open>
  The interfaces of the module become records.  \<^verbatim>\<open>playerCount\<close> of a configuration is
  any integer (the TypeScript type is \<^verbatim>\<open>number\<close>); row counts and column indices are
  natural numbers; coordinates are binary64 numbers, see below.  The fields \<^verbatim>\<open>x\<close> and
  \<^verbatim>\<open>y\<close> of a path point are called \<open>pt_x\<close> and \<open>pt_y\<close>.
\<close>

subsection \<open>Numbers\<close>

text \<open>
  A coordinate is a JavaScript number: a finite binary64 value (given by the real number
  it denotes; the sign of zero is not kept, no operation here observes it), an infinity
  or NaN.  Arguments are meant to be representable values.
\<close>

datatype jsNumber = Finite real | PosInf | NegInf | NaN

text \<open>Rounding to the nearest integer, ties to even.\<close>

definition roundHalfEven :: "real \<Rightarrow> int" where
  "roundHalfEven v =
     (let f = \<lfloor>v\<rfloor>; d = v - of_int f
      in if d < 1 / 2 then f else if 1 / 2 < d then f + 1 else if even f then f else f + 1)"

text \<open>
  The exponent of the binade of \<open>v \<noteq> 0\<close>; below \<^verbatim>\<open>2^(-1022)\<close> the values are
  subnormal and share the exponent \<open>-1022\<close>.
\<close>

definition binadeExp :: "real \<Rightarrow> int" where
  "binadeExp v = max (- 1022) \<lfloor>log 2 \<bar>v\<bar>\<rfloor>"

text \<open>
  \<open>fl v\<close> is the binary64 result of an operation whose exact result is \<open>v\<close>:
  round to nearest with 53 significant bits, ties to even; a rounded magnitude of
  \<^verbatim>\<open>2^1024\<close> or more overflows to an infinity.
\<close>

definition fl :: "real \<Rightarrow> jsNumber" where
  "fl v =
     (if v = 0 then Finite 0
      else
        (let u = 2 powr (of_int (binadeExp v - 52));
             r = of_int (roundHalfEven (v / u)) * u
         in if 2 ^ 1024 \<le> r then PosInf
            else if r \<le> - (2 ^ 1024) then NegInf
            else Finite r))"

text \<open>\<^verbatim>\<open>a + b\<close>, \<^verbatim>\<open>a * b\<close> and \<^verbatim>\<open>a / 2\<close> on numbers.\<close>

fun jsAdd :: "jsNumber \<Rightarrow> jsNumber \<Rightarrow> jsNumber" where
  "jsAdd (Finite a) (Finite b) = fl (a + b)"
| "jsAdd NaN b = NaN"
| "jsAdd a NaN = NaN"
| "jsAdd PosInf NegInf = NaN"
| "jsAdd NegInf PosInf = NaN"
| "jsAdd PosInf b = PosInf"
| "jsAdd NegInf b = NegInf"
| "jsAdd a PosInf = PosInf"
| "jsAdd a NegInf = NegInf"

fun jsScale :: "real \<Rightarrow> jsNumber \<Rightarrow> jsNumber" where
  "jsScale a PosInf = (if a = 0 then NaN else if 0 < a then PosInf else NegInf)"
| "jsScale a NegInf = (if a = 0 then NaN else if 0 < a then NegInf else PosInf)"
| "jsScale a b = NaN"

fun jsMul :: "jsNumber \<Rightarrow> jsNumber \<Rightarrow> jsNumber" where
  "jsMul (Finite a) (Finite b) = fl (a * b)"
| "jsMul NaN b = NaN"
| "jsMul a NaN = NaN"
| "jsMul (Finite a) b = jsScale a b"
| "jsMul a (Finite b) = jsScale b a"
| "jsMul PosInf PosInf = PosInf"
| "jsMul NegInf NegInf = PosInf"
| "jsMul PosInf NegInf = NegInf"
| "jsMul NegInf PosInf = NegInf"

fun jsHalf :: "jsNumber \<Rightarrow> jsNumber" where
  "jsHalf (Finite a) = fl (a / 2)"
| "jsHalf a = a"

text \<open>\<^verbatim>\<open>a === b\<close> and \<^verbatim>\<open>a !== b\<close> on numbers: NaN is equal to nothing.\<close>

definition strictEq :: "jsNumber \<Rightarrow> jsNumber \<Rightarrow> bool" where
  "strictEq a b \<longleftrightarrow> a = b \<and> a \<noteq> NaN"

definition strictNeq :: "jsNumber \<Rightarrow> jsNumber \<Rightarrow> bool" where
  "strictNeq a b \<longleftrightarrow> \<not> strictEq a b"

subsection \<open>Records\<close>

record LadderConfig =
  playerCount :: int
  excludeSelf :: bool

record LadderData =
  rungs :: "bool list list"
  rowCount :: nat

record PathPoint =
  pt_x :: jsNumber
  pt_y :: jsNumber

record TraceResult =
  path :: "PathPoint list"
  finalColumn :: nat

text \<open>
  The module has no \<^verbatim>\<open>throw\<close> of its own.  The run-time errors that its statements can
  raise are \<^verbatim>\<open>RangeError\<close> (\<^verbatim>\<open>Array(n - 1)\<close> with a negative length) and
  \<^verbatim>\<open>TypeError\<close> (an index into \<^verbatim>\<open>rungs[row]\<close> when that row does not exist).
\<close>

datatype error = RangeError | TypeError

subsection \<open>The random source\<close>

text \<open>
  \<^verbatim>\<open>Math.random()\<close> is ambient state in the source.  Here the source of randomness is the
  sequence \<open>rnd\<close> of the values that successive calls return, and every function that
  draws takes the number \<open>k\<close> of values consumed so far and returns the new count.
  \<open>validRandom\<close> is the contract of \<^verbatim>\<open>Math.random\<close>: every value lies in \<open>[0, 1)\<close>.
\<close>

type_synonym rng = "nat \<Rightarrow> real"

definition validRandom :: "rng \<Rightarrow> bool" where
  "validRandom rnd \<longleftrightarrow> (\<forall>k. 0 \<le> rnd k \<and> rnd k < 1)"

text \<open>The source that returns the same value \<open>r\<close> at every call.\<close>

definition constRandom :: "real \<Rightarrow> rng" where
  "constRandom r k = r"

text \<open>\<^verbatim>\<open>Math.floor(Math.random() * m)\<close>, for the \<open>k\<close>-th draw.\<close>

definition randomIndex :: "rng \<Rightarrow> nat \<Rightarrow> nat \<Rightarrow> nat" where
  "randomIndex rnd k m = nat \<lfloor>rnd k * real m\<rfloor>"

subsection \<open>Arrays\<close>

text \<open>
  A read beyond the end of a JavaScript array gives \<^verbatim>\<open>undefined\<close>, which is falsy; a
  write beyond the end extends the array (the holes read as \<^verbatim>\<open>undefined\<close>).
\<close>

definition rungAt :: "bool list \<Rightarrow> nat \<Rightarrow> bool" where
  "rungAt row i \<longleftrightarrow> i < length row \<and> row ! i"

definition jsSet :: "bool list \<Rightarrow> nat \<Rightarrow> bool \<Rightarrow> bool list" where
  "jsSet row i v =
     (if i < length row then row[i := v]
      else row @ replicate (i - length row) False @ [v])"

text \<open>\<^verbatim>\<open>rungs[row][col] = true\<close>; every call site has \<open>row < length g\<close>.\<close>

definition setRung :: "bool list list \<Rightarrow> nat \<Rightarrow> nat \<Rightarrow> bool list list" where
  "setRung g row col = g[row := jsSet (g ! row) col True]"

text \<open>\<^verbatim>\<open>[arr[i], arr[j]] = [arr[j], arr[i]]\<close>: both reads happen before both writes.\<close>

definition swapElems :: "nat list \<Rightarrow> nat \<Rightarrow> nat \<Rightarrow> nat list" where
  "swapElems arr i j = arr[i := arr ! j, j := arr ! i]"

section \<open>Permutation utilities\<close>

text \<open>
  \<^verbatim>\<open>generateDerangement\<close>: the loop runs \<open>i\<close> from \<open>n - 1\<close> down to \<open>1\<close> and swaps
  \<open>arr[i]\<close> with \<open>arr[j]\<close>, \<open>j = floor(random * i)\<close>.
\<close>

fun derangementLoop :: "rng \<Rightarrow> nat \<Rightarrow> nat list \<Rightarrow> nat \<Rightarrow> nat list \<times> nat" where
  "derangementLoop rnd 0 arr k = (arr, k)"
| "derangementLoop rnd (Suc i) arr k =
     (let j = randomIndex rnd k (Suc i)
      in derangementLoop rnd i (swapElems arr (Suc i) j) (Suc k))"

definition generateDerangement :: "rng \<Rightarrow> nat \<Rightarrow> nat \<Rightarrow> nat list \<times> nat" where
  "generateDerangement rnd n k = derangementLoop rnd (n - 1) [0..<n] k"

definition isValidDerangement :: "nat list \<Rightarrow> bool" where
  "isValidDerangement results \<longleftrightarrow>
     list_all (\<lambda>idx. results ! idx \<noteq> idx) [0..<length results]"

section \<open>Simulation of a grid\<close>

text \<open>One row of the inner loop of \<^verbatim>\<open>simulatePermutation\<close> (and of the tracer).\<close>

definition stepCol :: "nat \<Rightarrow> bool list \<Rightarrow> nat \<Rightarrow> nat" where
  "stepCol n row col =
     (if col > 0 \<and> rungAt row (col - 1) then col - 1
      else if col < n - 1 \<and> rungAt row col then col + 1
      else col)"

definition simulatePermutation :: "bool list list \<Rightarrow> nat \<Rightarrow> nat list" where
  "simulatePermutation g n = map (\<lambda>start. fold (stepCol n) g start) [0..<n]"

section \<open>The layout generator\<close>

text \<open>
  The chaos phase of \<^verbatim>\<open>permutationToRungs\<close>.  \<^verbatim>\<open>Math.random()\<close> is only called when
  the slot to the left is free (\<^verbatim>\<open>&&\<close> short-circuits).
\<close>

definition chaosCell :: "rng \<Rightarrow> nat \<Rightarrow> nat \<Rightarrow> bool list list \<times> nat \<Rightarrow> bool list list \<times> nat" where
  "chaosCell rnd row col = (\<lambda>(g, k).
     let prevHasRung = col > 0 \<and> rungAt (g ! row) (col - 1)
     in if prevHasRung then (g, k)
        else if rnd k > 0.4 then (setRung g row col, Suc k)
        else (g, Suc k))"

definition chaosLoop :: "rng \<Rightarrow> nat \<Rightarrow> nat \<Rightarrow> bool list list \<times> nat \<Rightarrow> bool list list \<times> nat" where
  "chaosLoop rnd n chaosRows =
     fold (\<lambda>row. fold (chaosCell rnd row) [0..<n - 1]) [0..<chaosRows]"

text \<open>
  The two loops \<^verbatim>\<open>inv[p[i]] = i\<close> (for \<^verbatim>\<open>currentInverse\<close> and
  \<^verbatim>\<open>correctionInverse\<close>), on \<^verbatim>\<open>Array(n).fill(0)\<close>.  Every index written is below \<open>n\<close>
  when \<open>p\<close> has its values below \<open>n\<close>, as in every call from \<^verbatim>\<open>generateLadder\<close>.
\<close>

definition inverseOf :: "nat list \<Rightarrow> nat \<Rightarrow> nat list" where
  "inverseOf p n = fold (\<lambda>i inv. inv[p ! i := i]) [0..<n] (replicate n 0)"

definition correctionOf :: "nat list \<Rightarrow> nat list \<Rightarrow> nat \<Rightarrow> nat list" where
  "correctionOf targetPerm currentInverse n =
     fold (\<lambda>i c. c[i := targetPerm ! (currentInverse ! i)]) [0..<n] (replicate n 0)"

text \<open>\<^verbatim>\<open>state.indexOf(v)\<close>; \<open>None\<close> stands for \<^verbatim>\<open>-1\<close>.\<close>

fun indexOf :: "nat list \<Rightarrow> nat \<Rightarrow> nat option" where
  "indexOf [] v = None"
| "indexOf (a # as) v = (if a = v then Some 0 else map_option Suc (indexOf as v))"

text \<open>The \<^verbatim>\<open>while (pos > i)\<close> loop: move the entry at \<open>pos\<close> left, recording each swap.\<close>

fun bubbleLeft :: "nat \<Rightarrow> nat \<Rightarrow> nat list \<times> nat list \<Rightarrow> nat list \<times> nat list" where
  "bubbleLeft i pos (state, swaps) =
     (if pos > i
      then bubbleLeft i (pos - 1) (swapElems state pos (pos - 1), swaps @ [pos - 1])
      else (state, swaps))"

declare bubbleLeft.simps [simp del]

definition correctionStep :: "nat list \<Rightarrow> nat \<Rightarrow> nat list \<times> nat list \<Rightarrow> nat list \<times> nat list" where
  "correctionStep correctionInverse i = (\<lambda>(state, swaps).
     case indexOf state (correctionInverse ! i) of
       None \<Rightarrow> (state, swaps)
     | Some pos \<Rightarrow> bubbleLeft i pos (state, swaps))"

definition correctionSwapsOf :: "nat list \<Rightarrow> nat \<Rightarrow> nat list" where
  "correctionSwapsOf correctionInverse n =
     snd (fold (correctionStep correctionInverse) [0..<n] ([0..<n], []))"

text \<open>One rung per recorded swap, in successive rows, until the rows run out.\<close>

fun placeCorrections :: "nat \<Rightarrow> nat list \<Rightarrow> bool list list \<times> nat \<Rightarrow> bool list list \<times> nat" where
  "placeCorrections rc [] (g, correctionRow) = (g, correctionRow)"
| "placeCorrections rc (swapPos # rest) (g, correctionRow) =
     (if correctionRow \<ge> rc then (g, correctionRow)
      else placeCorrections rc rest (setRung g correctionRow swapPos, correctionRow + 1))"

text \<open>The filler loop: \<^verbatim>\<open>for (row = correctionRow; row < rowCount - 1; row += 2)\<close>.\<close>

function fillerLoop :: "rng \<Rightarrow> nat \<Rightarrow> nat \<Rightarrow> nat \<Rightarrow> bool list list \<Rightarrow> nat \<Rightarrow> bool list list \<times> nat" where
  "fillerLoop rnd n rc row g k =
     (if row < rc - 1 then
        (let col = randomIndex rnd k (n - 1);
             prevHasRung = col > 0 \<and> rungAt (g ! row) (col - 1);
             nextHasRung = col < n - 2 \<and> rungAt (g ! row) (col + 1);
             g' = (if \<not> prevHasRung \<and> \<not> nextHasRung
                   then (let g1 = setRung g row col
                         in if row + 1 < rc then setRung g1 (row + 1) col else g1)
                   else g)
         in fillerLoop rnd n rc (row + 2) g' (Suc k))
      else (g, k))"
  by pat_completeness auto
termination
  by (relation "measure (\<lambda>(rnd, n, rc, row, g, k). rc - row)") auto

declare fillerLoop.simps [simp del]

text \<open>
  \<^verbatim>\<open>permutationToRungs\<close>.  \<^verbatim>\<open>Array(n - 1)\<close> raises a \<^verbatim>\<open>RangeError\<close> for \<open>n = 0\<close>; it
  is evaluated once per row.
\<close>

definition permutationToRungs :: "rng \<Rightarrow> nat list \<Rightarrow> nat \<Rightarrow> nat \<Rightarrow> error + (bool list list \<times> nat)" where
  "permutationToRungs rnd targetPerm rc k =
     (let n = length targetPerm;
          maxCorrectionSwaps = (n * (n - 1)) div 2;
          correctionReserve = maxCorrectionSwaps + 2;
          chaosRows = max (rc div 2) (rc - correctionReserve)
      in if n = 0 \<and> rc > 0 then Inl RangeError
         else
           (let (g1, k1) = chaosLoop rnd n chaosRows (replicate rc (replicate (n - 1) False), k);
                currentPerm = simulatePermutation (take chaosRows g1) n;
                currentInverse = inverseOf currentPerm n;
                correction = correctionOf targetPerm currentInverse n;
                correctionInverse = inverseOf correction n;
                correctionSwaps = correctionSwapsOf correctionInverse n;
                (g2, correctionRow) = placeCorrections rc correctionSwaps (g1, chaosRows)
            in Inr (fillerLoop rnd n rc correctionRow g2 k1)))"

text \<open>One row of the unconstrained mode of \<^verbatim>\<open>generateLadder\<close>, with \<open>m\<close> slots.\<close>

definition randomRow :: "rng \<Rightarrow> nat \<Rightarrow> nat \<Rightarrow> bool list \<times> nat" where
  "randomRow rnd m k =
     fold (\<lambda>col (rowRungs, k).
             let prevHasRung = col > 0 \<and> rungAt rowRungs (col - 1)
             in if prevHasRung then (rowRungs @ [False], k)
                else (rowRungs @ [rnd k > 0.4], Suc k))
          [0..<m] ([], k)"

text \<open>
  \<^verbatim>\<open>generateLadder\<close>.  \<^verbatim>\<open>Array.from({ length: n })\<close> is empty for \<open>n \<le> 0\<close>, hence
  \<open>nat\<close> of the player count in the call of \<open>generateDerangement\<close>.
\<close>

definition generateLadder :: "rng \<Rightarrow> LadderConfig \<Rightarrow> nat \<Rightarrow> error + (LadderData \<times> nat)" where
  "generateLadder rnd config k =
     (let p = playerCount config;
          rc = nat (if excludeSelf config then max 12 (p * p) else max 12 (p * 4))
      in if excludeSelf config then
           (let (targetPerm, k1) = generateDerangement rnd (nat p) k
            in case permutationToRungs rnd targetPerm rc k1 of
                 Inl e \<Rightarrow> Inl e
               | Inr (g, k2) \<Rightarrow> Inr (\<lparr>rungs = g, rowCount = rc\<rparr>, k2))
         else
           (let (g, k1) =
                  fold (\<lambda>row (g, k). let (rowRungs, k') = randomRow rnd (nat (p - 1)) k
                                     in (g @ [rowRungs], k'))
                       [0..<rc] ([], k)
            in Inr (\<lparr>rungs = g, rowCount = rc\<rparr>, k1)))"

definition hasNoAdjacentRungs :: "bool list list \<Rightarrow> bool" where
  "hasNoAdjacentRungs g \<longleftrightarrow>
     list_all (\<lambda>row. list_all (\<lambda>i. \<not> (row ! i \<and> row ! (i - 1))) [1..<length row]) g"

section \<open>The path tracer\<close>

text \<open>
  \<^verbatim>\<open>col * cellWidth + cellWidth / 2 + 50\<close> and
  \<^verbatim>\<open>row * cellHeight + startY + cellHeight / 2\<close>, each operation rounded, from left to
  right.
\<close>

definition getX :: "jsNumber \<Rightarrow> nat \<Rightarrow> jsNumber" where
  "getX cellWidth col =
     jsAdd (jsAdd (jsMul (Finite (real col)) cellWidth) (jsHalf cellWidth)) (Finite 50)"

definition getY :: "jsNumber \<Rightarrow> jsNumber \<Rightarrow> nat \<Rightarrow> jsNumber" where
  "getY cellHeight startY row =
     jsAdd (jsAdd (jsMul (Finite (real row)) cellHeight) startY) (jsHalf cellHeight)"

text \<open>
  The loop of \<^verbatim>\<open>traceLadderPath\<close> over the rows still to visit.  \<^verbatim>\<open>rungs[row]\<close> is only
  evaluated behind \<^verbatim>\<open>col > 0 &&\<close> or \<^verbatim>\<open>col < playerCount - 1 &&\<close>; if the row does not
  exist, indexing \<^verbatim>\<open>undefined\<close> raises a \<^verbatim>\<open>TypeError\<close>.
\<close>

fun traceRows :: "bool list list \<Rightarrow> nat \<Rightarrow> jsNumber \<Rightarrow> jsNumber \<Rightarrow> jsNumber \<Rightarrow> nat list \<Rightarrow> nat
    \<Rightarrow> PathPoint list
    \<Rightarrow> error + (nat \<times> PathPoint list)" where
  "traceRows g n cw ch sy [] col pth = Inr (col, pth)"
| "traceRows g n cw ch sy (row # rows) col pth =
     (let y = getY ch sy row;
          pth1 = pth @ [\<lparr>pt_x = getX cw col, pt_y = y\<rparr>]
      in if col > 0 \<and> \<not> row < length g then Inl TypeError
         else if col > 0 \<and> rungAt (g ! row) (col - 1)
           then traceRows g n cw ch sy rows (col - 1) (pth1 @ [\<lparr>pt_x = getX cw (col - 1), pt_y = y\<rparr>])
         else if col < n - 1 \<and> \<not> row < length g then Inl TypeError
         else if col < n - 1 \<and> rungAt (g ! row) col
           then traceRows g n cw ch sy rows (col + 1) (pth1 @ [\<lparr>pt_x = getX cw (col + 1), pt_y = y\<rparr>])
         else traceRows g n cw ch sy rows col pth1)"

definition traceLadderPath ::
    "LadderData \<Rightarrow> nat \<Rightarrow> nat \<Rightarrow> jsNumber \<Rightarrow> jsNumber \<Rightarrow> jsNumber \<Rightarrow> error + TraceResult" where
  "traceLadderPath ladder startCol n cellWidth cellHeight startY =
     (case traceRows (rungs ladder) n cellWidth cellHeight startY [0..<rowCount ladder] startCol
             [\<lparr>pt_x = getX cellWidth startCol, pt_y = startY\<rparr>] of
        Inl e \<Rightarrow> Inl e
      | Inr (col, pth) \<Rightarrow>
          Inr \<lparr>path = pth @ [\<lparr>pt_x = getX cellWidth col,
                                pt_y = jsAdd (jsMul (Finite (real (rowCount ladder))) cellHeight) startY\<rparr>],
               finalColumn = col\<rparr>)"

fun collectResults :: "LadderData \<Rightarrow> nat \<Rightarrow> nat list \<Rightarrow> error + nat list" where
  "collectResults ladder n [] = Inr []"
| "collectResults ladder n (i # rest) =
     (case traceLadderPath ladder i n (Finite 1) (Finite 1) (Finite 0) of
        Inl e \<Rightarrow> Inl e
      | Inr trace \<Rightarrow>
          (case collectResults ladder n rest of
             Inl e \<Rightarrow> Inl e
           | Inr results \<Rightarrow> Inr (finalColumn trace # results)))"

definition computeAllResults :: "LadderData \<Rightarrow> nat \<Rightarrow> error + nat list" where
  "computeAllResults ladder n = collectResults ladder n [0..<n]"

section \<open>Properties of permutations, rows and paths\<close>

text \<open>
  \<open>orbit p v t\<close> lists \<open>v, p[v], p[p[v]], \<dots>\<close> (\<open>t\<close> entries).  A permutation of
  \<open>0..n-1\<close> is a single \<open>n\<close>-cycle when the orbit of \<open>0\<close> visits all \<open>n\<close> columns and
  then returns to \<open>0\<close>.
\<close>

fun orbit :: "nat list \<Rightarrow> nat \<Rightarrow> nat \<Rightarrow> nat list" where
  "orbit p v 0 = []"
| "orbit p v (Suc t) = v # orbit p (p ! v) t"

definition isSingleCycle :: "nat list \<Rightarrow> bool" where
  "isSingleCycle p \<longleftrightarrow>
     (let n = length p; c = orbit p 0 n
      in 0 < n \<and> distinct c \<and> set c = {0..<n} \<and> p ! last c = 0)"

definition containsEachOnce :: "nat list \<Rightarrow> nat \<Rightarrow> bool" where
  "containsEachOnce arr n \<longleftrightarrow> list_all (\<lambda>v. count_list arr v = 1) [0..<n]"

text \<open>
  Row shapes used in the proofs, all in terms of \<open>rungAt\<close>: a row without two adjacent
  rungs, a row without rungs, a row whose only rung is at slot \<open>s\<close>; and what crossing
  a rung at slot \<open>s\<close> does to a column.
\<close>

definition noAdjacent :: "bool list \<Rightarrow> bool" where
  "noAdjacent row \<longleftrightarrow> (\<forall>i. \<not> (rungAt row i \<and> rungAt row (Suc i)))"

definition emptyRow :: "bool list \<Rightarrow> bool" where
  "emptyRow row \<longleftrightarrow> (\<forall>i. \<not> rungAt row i)"

definition singleRung :: "nat \<Rightarrow> bool list \<Rightarrow> bool" where
  "singleRung s row \<longleftrightarrow> (\<forall>i. rungAt row i \<longleftrightarrow> i = s)"

definition crossRung :: "nat \<Rightarrow> nat \<Rightarrow> nat" where
  "crossRung s c = (if c = Suc s then s else if c = s then Suc s else c)"

text \<open>A list that holds each of \<open>0..n-1\<close> exactly once.\<close>

definition isPerm :: "nat list \<Rightarrow> nat \<Rightarrow> bool" where
  "isPerm p n \<longleftrightarrow> mset p = mset [0..<n]"

text \<open>
  Moves between consecutive waypoints of a path, with \<^verbatim>\<open>===\<close> and \<^verbatim>\<open>!==\<close> as the
  test \<^verbatim>\<open>path only moves horizontally or vertically\<close> compares them.  A vertical move
  keeps \<open>x\<close> and changes \<open>y\<close>; a horizontal move keeps \<open>y\<close> and changes \<open>x\<close>; two
  waypoints differ in exactly one coordinate when the move between them is one or the
  other.
\<close>

definition isVerticalMove :: "PathPoint \<Rightarrow> PathPoint \<Rightarrow> bool" where
  "isVerticalMove a b \<longleftrightarrow> strictEq (pt_x a) (pt_x b) \<and> strictNeq (pt_y a) (pt_y b)"

definition isHorizontalMove :: "PathPoint \<Rightarrow> PathPoint \<Rightarrow> bool" where
  "isHorizontalMove a b \<longleftrightarrow> strictEq (pt_y a) (pt_y b) \<and> strictNeq (pt_x a) (pt_x b)"

definition differsInExactlyOne :: "PathPoint \<Rightarrow> PathPoint \<Rightarrow> bool" where
  "differsInExactlyOne a b \<longleftrightarrow>
     strictNeq (pt_x a) (pt_x b) \<noteq> strictNeq (pt_y a) (pt_y b)"

definition movesAxisAligned :: "PathPoint list \<Rightarrow> bool" where
  "movesAxisAligned pth \<longleftrightarrow>
     list_all (\<lambda>i. differsInExactlyOne (pth ! i) (pth ! (i + 1))) [0..<length pth - 1]"

definition strictlyAlternating :: "PathPoint list \<Rightarrow> bool" where
  "strictlyAlternating pth \<longleftrightarrow>
     list_all (\<lambda>i. \<not> (isVerticalMove (pth ! i) (pth ! (i + 1)) \<and>
                       isVerticalMove (pth ! (i + 1)) (pth ! (i + 2))) \<and>
                  \<not> (isHorizontalMove (pth ! i) (pth ! (i + 1)) \<and>
                       isHorizontalMove (pth ! (i + 1)) (pth ! (i + 2))))
              [0..<length pth - 2]"

definition noConsecutiveHorizontal :: "PathPoint list \<Rightarrow> bool" where
  "noConsecutiveHorizontal pth \<longleftrightarrow>
     list_all (\<lambda>i. \<not> (isHorizontalMove (pth ! i) (pth ! (i + 1)) \<and>
                       isHorizontalMove (pth ! (i + 1)) (pth ! (i + 2))))
              [0..<length pth - 2]"

section \<open>The restricted shuffle\<close>

lemma randomIndex_less:
  assumes "validRandom rnd" "0 < m"
  shows "randomIndex rnd k m < m"
proof -
  have a: "0 \<le> rnd k" and b: "rnd k < 1"
    using assms(1) by (auto simp: validRandom_def)
  have "rnd k * real m < real m"
    using b assms(2) by simp
  moreover have "0 \<le> rnd k * real m"
    using a by simp
  ultimately have "\<lfloor>rnd k * real m\<rfloor> < int m" "0 \<le> \<lfloor>rnd k * real m\<rfloor>"
    by (simp_all add: floor_less_iff)
  then show ?thesis
    unfolding randomIndex_def by linarith
qed

lemma length_swapElems [simp]: "length (swapElems arr i j) = length arr"
  by (simp add: swapElems_def)

lemma mset_swapElems:
  "i < length arr \<Longrightarrow> j < length arr \<Longrightarrow> mset (swapElems arr i j) = mset arr"
  unfolding swapElems_def by (simp add: mset_swap)

lemma nth_swapElems:
  "i < length arr \<Longrightarrow> j < length arr \<Longrightarrow> x < length arr \<Longrightarrow>
   swapElems arr i j ! x = (if x = j then arr ! i else if x = i then arr ! j else arr ! x)"
  unfolding swapElems_def by (simp add: nth_list_update)

lemma derangementLoop_mset:
  "validRandom rnd \<Longrightarrow> i < length arr \<Longrightarrow>
   mset (fst (derangementLoop rnd i arr k)) = mset arr"
proof (induction i arbitrary: arr k)
  case 0
  then show ?case by simp
next
  case (Suc i)
  have j: "randomIndex rnd k (Suc i) < Suc i"
    using Suc.prems(1) by (rule randomIndex_less) simp
  show ?case
    using Suc.IH [of "swapElems arr (Suc i) (randomIndex rnd k (Suc i))" "Suc k"] Suc.prems j
    by (simp add: Let_def mset_swapElems)
qed

lemma derangementLoop_cycle:
  assumes "validRandom rnd"
  shows "\<exists>c. distinct c \<and> set c = {0..i} \<and>
     (\<forall>arr. i < length arr \<longrightarrow>
        length (fst (derangementLoop rnd i arr k)) = length arr \<and>
        map ((!) (fst (derangementLoop rnd i arr k))) c = map ((!) arr) (rotate1 c) \<and>
        (\<forall>x. i < x \<and> x < length arr \<longrightarrow> fst (derangementLoop rnd i arr k) ! x = arr ! x))"
proof (induction i arbitrary: k)
  case 0
  show ?case by (rule exI [of _ "[0]"]) simp
next
  case (Suc i)
  define j where "j = randomIndex rnd k (Suc i)"
  have j: "j < Suc i"
    unfolding j_def using assms by (rule randomIndex_less) simp
  obtain c where c: "distinct c" "set c = {0..i}"
    and IH: "\<And>arr. i < length arr \<Longrightarrow>
        length (fst (derangementLoop rnd i arr (Suc k))) = length arr \<and>
        map ((!) (fst (derangementLoop rnd i arr (Suc k)))) c = map ((!) arr) (rotate1 c) \<and>
        (\<forall>x. i < x \<and> x < length arr \<longrightarrow> fst (derangementLoop rnd i arr (Suc k)) ! x = arr ! x)"
    using Suc [of "Suc k"] by blast
  from j c(2) have "j \<in> set c" by simp
  then obtain us vs where split: "c = us @ j # vs"
    by (meson split_list)
  define ws where "ws = vs @ us"
  have rot: "rotate (length us) c = j # ws"
    unfolding split ws_def by (simp add: rotate_append)
  have dws: "distinct (j # ws)" and sws: "set (j # ws) = {0..i}"
    using c unfolding split ws_def by auto
  have IH': "map ((!) (fst (derangementLoop rnd i arr (Suc k)))) (j # ws) = map ((!) arr) (ws @ [j])"
    if "i < length arr" for arr
  proof -
    let ?res = "fst (derangementLoop rnd i arr (Suc k))"
    have "map ((!) ?res) (rotate (length us) c) = rotate (length us) (map ((!) ?res) c)"
      by (simp add: rotate_map)
    also have "\<dots> = rotate (length us) (map ((!) arr) (rotate1 c))"
      using IH [OF that] by simp
    also have "\<dots> = map ((!) arr) (rotate1 (rotate (length us) c))"
      by (simp add: rotate_map rotate1_rotate_swap)
    finally show ?thesis
      unfolding rot by simp
  qed
  have d': "distinct (Suc i # j # ws)"
    using dws sws by auto
  have s': "set (Suc i # j # ws) = {0..Suc i}"
    using sws by (auto simp: atLeastAtMostSuc_conv)
  have main: "length (fst (derangementLoop rnd (Suc i) arr k)) = length arr \<and>
        map ((!) (fst (derangementLoop rnd (Suc i) arr k))) (Suc i # j # ws)
          = map ((!) arr) (rotate1 (Suc i # j # ws)) \<and>
        (\<forall>x. Suc i < x \<and> x < length arr \<longrightarrow> fst (derangementLoop rnd (Suc i) arr k) ! x = arr ! x)"
    if len: "Suc i < length arr" for arr
  proof -
    define arr' where "arr' = swapElems arr (Suc i) j"
    let ?res = "fst (derangementLoop rnd (Suc i) arr k)"
    have res: "?res = fst (derangementLoop rnd i arr' (Suc k))"
      by (simp add: Let_def arr'_def j_def)
    have len': "i < length arr'"
      using len by (simp add: arr'_def)
    have jl: "j < length arr" using j len by simp
    have unch: "arr' ! w = arr ! w" if "w \<in> set ws" for w
    proof -
      have "w \<noteq> j" using that dws by auto
      moreover have "w \<le> i" using that sws by auto
      ultimately show ?thesis
        using len jl unfolding arr'_def by (simp add: nth_swapElems)
    qed
    have A: "length ?res = length arr"
      using IH [OF len'] res by (simp add: arr'_def)
    have "?res ! Suc i = arr' ! Suc i"
      using IH [OF len'] res len by (simp add: arr'_def)
    also have "\<dots> = arr ! j"
      using len jl j unfolding arr'_def by (simp add: nth_swapElems)
    finally have hd: "?res ! Suc i = arr ! j" .
    have "map ((!) ?res) (j # ws) = map ((!) arr') (ws @ [j])"
      using IH' [OF len'] res by simp
    also have "\<dots> = map ((!) arr) ws @ [arr ! Suc i]"
      using unch len jl unfolding arr'_def by (simp add: nth_swapElems)
    finally have B: "map ((!) ?res) (Suc i # j # ws) = map ((!) arr) (rotate1 (Suc i # j # ws))"
      using hd by simp
    have C: "?res ! x = arr ! x" if x: "Suc i < x \<and> x < length arr" for x
    proof -
      have "?res ! x = arr' ! x"
        using x IH [OF len'] res by (simp add: arr'_def)
      also have "\<dots> = arr ! x"
        using x len jl j unfolding arr'_def by (simp add: nth_swapElems)
      finally show ?thesis .
    qed
    from A B C show ?thesis by blast
  qed
  from d' s' main show ?case by blast
qed

lemma generateDerangement_cycle:
  assumes "validRandom rnd" "0 < n"
  shows "length (fst (generateDerangement rnd n k)) = n \<and>
     (\<exists>c. distinct c \<and> set c = {0..<n} \<and> length c = n \<and>
          map ((!) (fst (generateDerangement rnd n k))) c = rotate1 c)"
proof -
  let ?p = "fst (generateDerangement rnd n k)"
  from derangementLoop_cycle [OF assms(1), of "n - 1" k]
  obtain c where c: "distinct c" "set c = {0..n - 1}"
    and loop: "\<forall>arr. n - 1 < length arr \<longrightarrow>
        length (fst (derangementLoop rnd (n - 1) arr k)) = length arr \<and>
        map ((!) (fst (derangementLoop rnd (n - 1) arr k))) c = map ((!) arr) (rotate1 c) \<and>
        (\<forall>x. n - 1 < x \<and> x < length arr \<longrightarrow> fst (derangementLoop rnd (n - 1) arr k) ! x = arr ! x)"
    by (elim exE conjE)
  have "{0..n - 1} = {0..<n}"
    using assms(2) by (simp add: set_eq_iff) linarith
  then have sc: "set c = {0..<n}"
    using c(2) by simp
  have "card (set c) = n"
    unfolding sc by simp
  moreover have "card (set c) = length c"
    using c(1) by (rule distinct_card)
  ultimately have lc: "length c = n"
    by simp
  have id: "map ((!) [0..<n]) (rotate1 c) = rotate1 c"
    by (rule map_idI) (simp add: sc)
  have "n - 1 < length [0..<n]"
    using assms(2) by simp
  with loop have "length (fst (derangementLoop rnd (n - 1) [0..<n] k)) = length [0..<n] \<and>
        map ((!) (fst (derangementLoop rnd (n - 1) [0..<n] k))) c = map ((!) [0..<n]) (rotate1 c)"
    by blast
  then have "length ?p = n" "map ((!) ?p) c = rotate1 c"
    unfolding generateDerangement_def id by simp_all
  with c(1) sc lc show ?thesis by blast
qed

lemma generateDerangement_mset:
  assumes "validRandom rnd"
  shows "mset (fst (generateDerangement rnd n k)) = mset [0..<n]"
proof (cases "n = 0")
  case True
  then show ?thesis by (simp add: generateDerangement_def)
next
  case False
  then show ?thesis
    unfolding generateDerangement_def
    by (intro derangementLoop_mset [OF assms]) simp
qed

lemma cycle_no_fixed_point:
  assumes "distinct c" "map ((!) p) c = rotate1 c" "2 \<le> length c" "v \<in> set c"
  shows "p ! v \<noteq> v"
proof -
  obtain t where t: "t < length c" "c ! t = v"
    using assms(4) by (auto simp: in_set_conv_nth)
  have "p ! v = map ((!) p) c ! t"
    using t by simp
  also have "\<dots> = c ! (Suc t mod length c)"
    using t by (simp add: assms(2) nth_rotate1)
  finally have pv: "p ! v = c ! (Suc t mod length c)" .
  have "Suc t mod length c \<noteq> t"
  proof (cases "Suc t = length c")
    case True
    then show ?thesis using assms(3) by simp
  next
    case False
    then show ?thesis using t by simp
  qed
  moreover have "Suc t mod length c < length c"
    using t(1) by (intro mod_less_divisor) linarith
  ultimately have "c ! (Suc t mod length c) \<noteq> c ! t"
    using assms(1) t(1) by (simp add: nth_eq_iff_index_eq)
  then show ?thesis
    using pv t by simp
qed

lemma orbit_along_cycle:
  assumes "map ((!) p) c = rotate1 c"
  shows "t + m \<le> length c \<Longrightarrow> t < length c \<Longrightarrow> orbit p (c ! t) m = take m (drop t c)"
proof (induction m arbitrary: t)
  case 0
  then show ?case by simp
next
  case (Suc m)
  have step: "p ! (c ! t) = c ! (Suc t mod length c)"
  proof -
    have "p ! (c ! t) = map ((!) p) c ! t"
      using Suc.prems by simp
    then show ?thesis
      using Suc.prems by (simp add: assms nth_rotate1)
  qed
  have dr: "drop t c = c ! t # drop (Suc t) c"
    using Suc.prems by (simp add: Cons_nth_drop_Suc)
  show ?case
  proof (cases m)
    case 0
    then show ?thesis using dr by simp
  next
    case (Suc m')
    then have lt: "Suc t < length c"
      using Suc.prems by simp
    then have "orbit p (c ! Suc t) m = take m (drop (Suc t) c)"
      using Suc.IH [of "Suc t"] Suc.prems by simp
    then show ?thesis
      using step lt dr by simp
  qed
qed

lemma cycle_isSingleCycle:
  assumes "distinct c" "set c = {0..<n}" "length c = n" "map ((!) p) c = rotate1 c"
    "length p = n" "0 < n"
  shows "isSingleCycle p"
proof -
  have "0 \<in> set c"
    using assms(2,6) by simp
  then obtain us vs where split: "c = us @ 0 # vs"
    by (meson split_list)
  define c0 where "c0 = 0 # vs @ us"
  have rot: "rotate (length us) c = c0"
    unfolding split c0_def by (simp add: rotate_append)
  have d0: "distinct c0" and s0: "set c0 = {0..<n}" and l0: "length c0 = n"
    using assms(1-3) unfolding rot [symmetric] by simp_all
  have "map ((!) p) c0 = rotate (length us) (map ((!) p) c)"
    unfolding rot [symmetric] by (simp add: rotate_map)
  also have "\<dots> = rotate1 c0"
    unfolding assms(4) rot [symmetric] by (simp add: rotate1_rotate_swap)
  finally have m0: "map ((!) p) c0 = rotate1 c0" .
  have "orbit p (c0 ! 0) n = take n (drop 0 c0)"
    by (rule orbit_along_cycle [OF m0]) (use l0 assms(6) in simp_all)
  then have orb: "orbit p 0 n = c0"
    using l0 by (simp add: c0_def)
  have ne: "c0 \<noteq> []"
    by (simp add: c0_def)
  have "last c0 = c0 ! (n - 1)"
    using last_conv_nth [OF ne] l0 by simp
  then have "p ! last c0 = map ((!) p) c0 ! (n - 1)"
    using l0 assms(6) by simp
  also have "\<dots> = c0 ! (Suc (n - 1) mod n)"
    unfolding m0 using l0 assms(6) by (simp add: nth_rotate1 del: mod_self)
  also have "\<dots> = 0"
    using assms(6) by (simp add: c0_def)
  finally have "p ! last c0 = 0" .
  then show ?thesis
    unfolding isSingleCycle_def Let_def assms(5) orb
    using d0 s0 assms(6) by simp
qed

lemma count_mset_upt: "count (mset [0..<n]) v = (if v < n then 1 else 0)"
  by (induction n) auto

lemma mset_containsEachOnce:
  assumes "mset arr = mset [0..<n]"
  shows "containsEachOnce arr n"
proof -
  have "count_list arr v = 1" if "v < n" for v
  proof -
    have "count_list arr v = count (mset arr) v"
      by (simp add: count_mset)
    also have "\<dots> = count (mset [0..<n]) v"
      by (simp add: assms)
    also have "\<dots> = 1"
      using that by (simp add: count_mset_upt)
    finally show ?thesis .
  qed
  then show ?thesis
    by (simp add: containsEachOnce_def list_all_iff)
qed

lemma derangementLoop_draws: "snd (derangementLoop rnd i arr k) = k + i"
  by (induction i arbitrary: arr k) (simp_all add: Let_def)

lemma generateDerangement_no_fixed_point:
  assumes "validRandom rnd" "2 \<le> n" "v < n"
  shows "fst (generateDerangement rnd n k) ! v \<noteq> v"
proof -
  from generateDerangement_cycle [OF assms(1), of n k] assms(2)
  obtain c where c: "distinct c" "set c = {0..<n}" "length c = n"
    "map ((!) (fst (generateDerangement rnd n k))) c = rotate1 c"
    by auto
  show ?thesis
    by (rule cycle_no_fixed_point [OF c(1) c(4)]) (use c(2,3) assms(2,3) in simp_all)
qed

text \<open>
  C5: for \<open>n \<ge> 2\<close> and every sequence of random values in \<open>[0, 1)\<close>,
  \<open>generateDerangement n\<close> returns an array of length \<open>n\<close> that contains each of
  \<open>0..n-1\<close> exactly once and has no index \<open>i\<close> whose value is \<open>i\<close>.  The function is a
  single pass: it is total and draws exactly \<open>n - 1\<close> random values, with no retry.
\<close>

theorem generateDerangement_is_derangement:
  assumes "validRandom rnd" "2 \<le> n"
  shows "length (fst (generateDerangement rnd n k)) = n \<and>
         containsEachOnce (fst (generateDerangement rnd n k)) n \<and>
         isValidDerangement (fst (generateDerangement rnd n k)) \<and>
         snd (generateDerangement rnd n k) = k + (n - 1)"
proof -
  let ?p = "fst (generateDerangement rnd n k)"
  have len: "length ?p = n"
    using generateDerangement_cycle [OF assms(1), of n k] assms(2) by simp
  have "containsEachOnce ?p n"
    by (rule mset_containsEachOnce) (rule generateDerangement_mset [OF assms(1)])
  moreover have "isValidDerangement ?p"
    unfolding isValidDerangement_def list_all_iff len
    using generateDerangement_no_fixed_point [OF assms] by simp
  moreover have "snd (generateDerangement rnd n k) = k + (n - 1)"
    by (simp add: generateDerangement_def derangementLoop_draws)
  ultimately show ?thesis
    using len by simp
qed

theorem generateDerangement_is_derangement_witness:
  "length (fst (generateDerangement (\<lambda>k. 1 / 2) 4 0)) = 4 \<and>
   containsEachOnce (fst (generateDerangement (\<lambda>k. 1 / 2) 4 0)) 4 \<and>
   isValidDerangement (fst (generateDerangement (\<lambda>k. 1 / 2) 4 0)) \<and>
   snd (generateDerangement (\<lambda>k. 1 / 2) 4 0) = 0 + (4 - 1)"
  using generateDerangement_is_derangement [of "\<lambda>k. 1 / 2" 4 0]
  by (simp add: validRandom_def)

lemma not_isSingleCycle_double_transposition: "\<not> isSingleCycle [1, 0, 3, 2]"
  by (simp add: isSingleCycle_def Let_def numeral_eq_Suc)

text \<open>
  C10: for \<open>n \<ge> 2\<close> and every sequence of random values, the permutation returned by
  \<open>generateDerangement n\<close> is a single \<open>n\<close>-cycle: following it from column \<open>0\<close> visits
  all \<open>n\<close> columns before it returns to \<open>0\<close>.  Hence the double transposition
  \<open>[1, 0, 3, 2]\<close>, which is a derangement of four elements, is returned for no sequence
  of random values.
\<close>

theorem generateDerangement_single_cycle:
  assumes "validRandom rnd" "2 \<le> n"
  shows "isSingleCycle (fst (generateDerangement rnd n k)) \<and>
         (n = 4 \<longrightarrow> fst (generateDerangement rnd n k) \<noteq> [1, 0, 3, 2]) \<and>
         isValidDerangement [1, 0, 3, 2] \<and> containsEachOnce [1, 0, 3, 2] 4"
proof -
  from generateDerangement_cycle [OF assms(1), of n k] assms(2)
  obtain c where len: "length (fst (generateDerangement rnd n k)) = n"
    and c: "distinct c" "set c = {0..<n}" "length c = n"
    "map ((!) (fst (generateDerangement rnd n k))) c = rotate1 c"
    by auto
  have single: "isSingleCycle (fst (generateDerangement rnd n k))"
    by (rule cycle_isSingleCycle [OF c len]) (use assms(2) in simp)
  then have "fst (generateDerangement rnd n k) \<noteq> [1, 0, 3, 2]"
    using not_isSingleCycle_double_transposition by auto
  moreover have "isValidDerangement [1, 0, 3, 2]"
    by (simp add: isValidDerangement_def numeral_eq_Suc)
  moreover have "containsEachOnce [1, 0, 3, 2] 4"
    by (simp add: containsEachOnce_def numeral_eq_Suc)
  ultimately show ?thesis
    using single by blast
qed

theorem generateDerangement_single_cycle_witness:
  "isSingleCycle (fst (generateDerangement (\<lambda>k. 1 / 3) 4 0)) \<and>
   fst (generateDerangement (\<lambda>k. 1 / 3) 4 0) \<noteq> [1, 0, 3, 2]"
  using generateDerangement_single_cycle [of "\<lambda>k. 1 / 3" 4 0]
  by (simp add: validRandom_def)

section \<open>Rows and steps\<close>

lemma rungAt_jsSet: "rungAt (jsSet row c True) i \<longleftrightarrow> i = c \<or> rungAt row i"
  by (auto simp: rungAt_def jsSet_def nth_append nth_list_update)

lemma length_setRung [simp]: "length (setRung g r c) = length g"
  by (simp add: setRung_def)

lemma nth_setRung:
  "r < length g \<Longrightarrow> setRung g r c ! r' = (if r' = r then jsSet (g ! r) c True else g ! r')"
  by (simp add: setRung_def nth_list_update)

lemma noAdjacent_row_iff:
  "list_all (\<lambda>i. \<not> (row ! i \<and> row ! (i - 1))) [1..<length row] \<longleftrightarrow> noAdjacent row"
proof
  assume L: "list_all (\<lambda>i. \<not> (row ! i \<and> row ! (i - 1))) [1..<length row]"
  show "noAdjacent row"
    unfolding noAdjacent_def
  proof (intro allI notI)
    fix i assume a: "rungAt row i \<and> rungAt row (Suc i)"
    then have "Suc i \<in> set [1..<length row]"
      by (simp add: rungAt_def)
    with L have "\<not> (row ! Suc i \<and> row ! (Suc i - 1))"
      unfolding list_all_iff by blast
    with a show False
      by (simp add: rungAt_def)
  qed
next
  assume N: "noAdjacent row"
  show "list_all (\<lambda>i. \<not> (row ! i \<and> row ! (i - 1))) [1..<length row]"
    unfolding list_all_iff
  proof (intro ballI notI)
    fix i assume i: "i \<in> set [1..<length row]" and a: "row ! i \<and> row ! (i - 1)"
    from i have "0 < i" "i < length row"
      by simp_all
    then obtain j where j: "i = Suc j" "Suc j < length row"
      by (cases i) simp_all
    with a have "rungAt row j \<and> rungAt row (Suc j)"
      by (simp add: rungAt_def)
    with N show False
      unfolding noAdjacent_def by blast
  qed
qed

lemma hasNoAdjacentRungs_iff: "hasNoAdjacentRungs g \<longleftrightarrow> (\<forall>row\<in>set g. noAdjacent row)"
  unfolding hasNoAdjacentRungs_def noAdjacent_row_iff by (simp add: list_all_iff)

lemma emptyRow_noAdjacent: "emptyRow row \<Longrightarrow> noAdjacent row"
  by (simp add: emptyRow_def noAdjacent_def)

lemma singleRung_noAdjacent: "singleRung s row \<Longrightarrow> noAdjacent row"
  by (simp add: singleRung_def noAdjacent_def)

lemma emptyRow_replicate: "emptyRow (replicate m False)"
  by (simp add: emptyRow_def rungAt_def)

lemma singleRung_jsSet: "emptyRow row \<Longrightarrow> singleRung s (jsSet row s True)"
  by (simp add: emptyRow_def singleRung_def rungAt_jsSet)

lemma stepCol_less: "col < n \<Longrightarrow> stepCol n row col < n"
  by (auto simp: stepCol_def)

lemma stepCol_involution:
  assumes "noAdjacent row" "col < n"
  shows "stepCol n row (stepCol n row col) = col"
proof -
  have na: "\<not> (rungAt row i \<and> rungAt row (Suc i))" for i
    using assms(1) by (simp add: noAdjacent_def)
  consider (left) "col > 0 \<and> rungAt row (col - 1)"
    | (right) "\<not> (col > 0 \<and> rungAt row (col - 1))" "col < n - 1 \<and> rungAt row col"
    | (stay) "\<not> (col > 0 \<and> rungAt row (col - 1))" "\<not> (col < n - 1 \<and> rungAt row col)"
    by blast
  then show ?thesis
  proof cases
    case left
    then obtain c where c: "col = Suc c" "rungAt row c"
      by (cases col) auto
    have first: "stepCol n row col = c"
      using c by (simp add: stepCol_def)
    have "\<not> (c > 0 \<and> rungAt row (c - 1))"
      using na [of "c - 1"] c(2) by (cases c) auto
    moreover have "c < n - 1"
      using c(1) assms(2) by simp
    ultimately have "stepCol n row c = Suc c"
      using c(2) unfolding stepCol_def by auto
    with first c(1) show ?thesis by simp
  next
    case right
    have first: "stepCol n row col = Suc col"
      using right unfolding stepCol_def by auto
    have "stepCol n row (Suc col) = col"
      using right unfolding stepCol_def by auto
    with first show ?thesis by simp
  next
    case stay
    have "stepCol n row col = col"
      using stay unfolding stepCol_def by auto
    then show ?thesis by simp
  qed
qed

lemma stepCol_empty: "emptyRow row \<Longrightarrow> stepCol n row col = col"
  by (simp add: stepCol_def emptyRow_def)

lemma stepCol_single:
  assumes "singleRung s row" "Suc s < n"
  shows "stepCol n row col = crossRung s col"
proof -
  have r: "rungAt row i \<longleftrightarrow> i = s" for i
    using assms(1) by (simp add: singleRung_def)
  have "s < n - 1"
    using assms(2) by simp
  then show ?thesis
    unfolding stepCol_def crossRung_def r by (cases col) auto
qed

lemma crossRung_involution: "crossRung s (crossRung s c) = c"
  by (simp add: crossRung_def)

lemma crossRung_less: "Suc s < n \<Longrightarrow> c < n \<Longrightarrow> crossRung s c < n"
  by (simp add: crossRung_def)

lemma fold_stepCol_less: "col < n \<Longrightarrow> fold (stepCol n) g col < n"
  by (induction g arbitrary: col) (simp_all add: stepCol_less)

lemma fold_stepCol_inj:
  assumes "\<forall>row\<in>set g. noAdjacent row" "a < n" "b < n"
    "fold (stepCol n) g a = fold (stepCol n) g b"
  shows "a = b"
  using assms
proof (induction g arbitrary: a b)
  case Nil
  then show ?case by simp
next
  case (Cons row g)
  have "stepCol n row a = stepCol n row b"
    using Cons.IH [of "stepCol n row a" "stepCol n row b"] Cons.prems
    by (simp add: stepCol_less)
  then have "stepCol n row (stepCol n row a) = stepCol n row (stepCol n row b)"
    by simp
  then show ?case
    using Cons.prems by (simp add: stepCol_involution)
qed

lemma fold_stepCol_empty:
  "\<forall>row\<in>set g. emptyRow row \<Longrightarrow> fold (stepCol n) g col = col"
  by (induction g) (simp_all add: stepCol_empty)

lemma length_simulatePermutation [simp]: "length (simulatePermutation g n) = n"
  by (simp add: simulatePermutation_def)

lemma nth_simulatePermutation:
  "s < n \<Longrightarrow> simulatePermutation g n ! s = fold (stepCol n) g s"
  by (simp add: simulatePermutation_def)

lemma simulatePermutation_perm:
  assumes "\<forall>row\<in>set g. noAdjacent row"
  shows "distinct (simulatePermutation g n) \<and> set (simulatePermutation g n) = {0..<n}"
proof -
  let ?f = "\<lambda>start. fold (stepCol n) g start"
  have inj: "inj_on ?f {0..<n}"
    by (rule inj_onI) (use fold_stepCol_inj [OF assms] in simp)
  have d: "distinct (simulatePermutation g n)"
    unfolding simulatePermutation_def by (simp add: distinct_map inj)
  have sub: "set (simulatePermutation g n) \<subseteq> {0..<n}"
    unfolding simulatePermutation_def by (auto simp: fold_stepCol_less)
  have "card (set (simulatePermutation g n)) = n"
    using d distinct_card [of "simulatePermutation g n"] by simp
  then have "set (simulatePermutation g n) = {0..<n}"
    using sub by (intro card_subset_eq) simp_all
  with d show ?thesis by simp
qed

section \<open>The tracer follows the simulation\<close>

lemma traceRows_final:
  "\<forall>r\<in>set rows. r < length g \<Longrightarrow>
   \<exists>pth'. traceRows g n cw ch sy rows col pth
           = Inr (fold (\<lambda>r. stepCol n (g ! r)) rows col, pth')"
proof (induction rows arbitrary: col pth)
  case Nil
  then show ?case by simp
next
  case (Cons row rows)
  then have r: "row < length g" and rest: "\<forall>r\<in>set rows. r < length g"
    by simp_all
  show ?case
    using r Cons.IH [OF rest] by (simp add: Let_def stepCol_def)
qed

lemma fold_rows_upt: "fold (\<lambda>r. stepCol n (g ! r)) [0..<length g] col = fold (stepCol n) g col"
proof -
  have "fold (stepCol n) (map ((!) g) [0..<length g]) col
      = fold (stepCol n \<circ> (!) g) [0..<length g] col"
    by (simp only: fold_map)
  then show ?thesis
    by (simp add: map_nth comp_def)
qed

lemma traceLadderPath_final:
  assumes "rowCount ladder = length (rungs ladder)"
  shows "\<exists>tr. traceLadderPath ladder col n cw ch sy = Inr tr \<and>
              finalColumn tr = fold (stepCol n) (rungs ladder) col"
proof -
  have "\<forall>r\<in>set [0..<rowCount ladder]. r < length (rungs ladder)"
    using assms by simp
  from traceRows_final [OF this]
  obtain pth' where "traceRows (rungs ladder) n cw ch sy [0..<rowCount ladder] col
       [\<lparr>pt_x = getX cw col, pt_y = sy\<rparr>]
     = Inr (fold (\<lambda>r. stepCol n (rungs ladder ! r)) [0..<rowCount ladder] col, pth')"
    by blast
  then show ?thesis
    by (simp add: traceLadderPath_def assms fold_rows_upt)
qed

lemma collectResults_simulate:
  assumes "rowCount ladder = length (rungs ladder)"
  shows "collectResults ladder n cols = Inr (map (\<lambda>s. fold (stepCol n) (rungs ladder) s) cols)"
proof (induction cols)
  case Nil
  show ?case by simp
next
  case (Cons c cols)
  obtain tr where "traceLadderPath ladder c n (Finite 1) (Finite 1) (Finite 0) = Inr tr"
    "finalColumn tr = fold (stepCol n) (rungs ladder) c"
    using traceLadderPath_final [OF assms] by blast
  then show ?case
    using Cons.IH by simp
qed

lemma computeAllResults_simulate:
  "rowCount ladder = length (rungs ladder) \<Longrightarrow>
   computeAllResults ladder n = Inr (simulatePermutation (rungs ladder) n)"
  by (simp add: computeAllResults_def simulatePermutation_def collectResults_simulate)

section \<open>Rows built by the generator\<close>

lemma stepCol_cong:
  "(\<And>i. rungAt r1 i = rungAt r2 i) \<Longrightarrow> stepCol n r1 col = stepCol n r2 col"
  by (simp add: stepCol_def)

lemma noAdjacent_snoc:
  assumes "noAdjacent row" "b \<longrightarrow> \<not> (0 < length row \<and> rungAt row (length row - 1))"
  shows "noAdjacent (row @ [b])"
  unfolding noAdjacent_def
proof (intro allI notI)
  fix i assume a: "rungAt (row @ [b]) i \<and> rungAt (row @ [b]) (Suc i)"
  show False
  proof (cases "Suc i < length row")
    case True
    then have "rungAt row i \<and> rungAt row (Suc i)"
      using a by (simp add: rungAt_def nth_append)
    then show False
      using assms(1) unfolding noAdjacent_def by blast
  next
    case False
    then have eq: "Suc i = length row" and b
      using a by (auto simp: rungAt_def nth_append split: if_splits)
    then have "rungAt row i"
      using a by (simp add: rungAt_def nth_append)
    then show False
      using assms(2) \<open>b\<close> eq by (cases "length row") auto
  qed
qed

lemma randomRow_step:
  "fold f [0..<Suc m] s = f m (fold f [0..<m] s)"
  by simp

lemma randomRow_inv:
  "length (fst (randomRow rnd m k)) = m \<and> noAdjacent (fst (randomRow rnd m k))"
proof (induction m)
  case 0
  show ?case
    by (simp add: randomRow_def noAdjacent_def rungAt_def)
next
  case (Suc m)
  let ?body = "\<lambda>col (rowRungs, k).
             let prevHasRung = col > 0 \<and> rungAt rowRungs (col - 1)
             in if prevHasRung then (rowRungs @ [False], k)
                else (rowRungs @ [rnd k > 0.4], Suc k)"
  obtain row k' where st: "fold ?body [0..<m] ([], k) = (row, k')"
    by (cases "fold ?body [0..<m] ([], k)")
  have row: "length row = m" "noAdjacent row"
    using Suc st by (simp_all add: randomRow_def)
  have next_row: "fst (randomRow rnd (Suc m) k)
      = (if m > 0 \<and> rungAt row (m - 1) then row @ [False] else row @ [rnd k' > 0.4])"
    unfolding randomRow_def randomRow_step st by (simp add: Let_def)
  show ?case
    unfolding next_row using row by (auto intro!: noAdjacent_snoc)
qed

lemma unconstrained_rows_inv:
  fixes rnd :: rng
  defines "addRow m \<equiv> (\<lambda>row (g, k). let (rowRungs, k') = randomRow rnd m k in (g @ [rowRungs], k'))"
  shows "length (fst (fold (addRow m) [0..<rc] ([], k))) = rc \<and>
         (\<forall>row\<in>set (fst (fold (addRow m) [0..<rc] ([], k))). noAdjacent row)"
proof (induction rc)
  case 0
  show ?case by simp
next
  case (Suc rc)
  obtain g k' where st: "fold (addRow m) [0..<rc] ([], k) = (g, k')"
    by (cases "fold (addRow m) [0..<rc] ([], k)")
  have "fst (fold (addRow m) [0..<Suc rc] ([], k)) = g @ [fst (randomRow rnd m k')]"
    unfolding randomRow_step st by (simp add: addRow_def split: prod.splits)
  then show ?case
    using Suc st randomRow_inv [of rnd m k'] by simp
qed

section \<open>The chaos phase\<close>

lemma chaosCell_cases:
  "fst (chaosCell rnd row col s) = fst s \<or>
   (fst (chaosCell rnd row col s) = setRung (fst s) row col \<and>
    \<not> (col > 0 \<and> rungAt (fst s ! row) (col - 1)))"
  by (cases s) (simp add: chaosCell_def Let_def)

lemma chaosCells_inv:
  assumes "row < length (fst s)" "emptyRow (fst s ! row)"
  shows "length (fst (fold (chaosCell rnd row) [0..<m] s)) = length (fst s) \<and>
         (\<forall>r. r \<noteq> row \<longrightarrow> fst (fold (chaosCell rnd row) [0..<m] s) ! r = fst s ! r) \<and>
         noAdjacent (fst (fold (chaosCell rnd row) [0..<m] s) ! row) \<and>
         (\<forall>i\<ge>m. \<not> rungAt (fst (fold (chaosCell rnd row) [0..<m] s) ! row) i)"
proof (induction m)
  case 0
  show ?case
    using assms(2) by (simp add: emptyRow_noAdjacent) (simp add: emptyRow_def)
next
  case (Suc m)
  define t where "t = fold (chaosCell rnd row) [0..<m] s"
  have IH: "length (fst t) = length (fst s)" "\<And>r. r \<noteq> row \<Longrightarrow> fst t ! r = fst s ! r"
    "noAdjacent (fst t ! row)" "\<And>i. m \<le> i \<Longrightarrow> \<not> rungAt (fst t ! row) i"
    using Suc unfolding t_def by simp_all
  have step: "fold (chaosCell rnd row) [0..<Suc m] s = chaosCell rnd row m t"
    unfolding t_def by simp
  from chaosCell_cases [of rnd row m t]
  show ?case
  proof
    assume same: "fst (chaosCell rnd row m t) = fst t"
    show ?thesis
      unfolding step same using IH by simp
  next
    assume "fst (chaosCell rnd row m t) = setRung (fst t) row m \<and>
      \<not> (m > 0 \<and> rungAt (fst t ! row) (m - 1))"
    then have set: "fst (chaosCell rnd row m t) = setRung (fst t) row m"
      and prev: "\<not> (m > 0 \<and> rungAt (fst t ! row) (m - 1))"
      by simp_all
    have rl: "row < length (fst t)"
      using IH(1) assms(1) by simp
    have r: "rungAt (setRung (fst t) row m ! row) i \<longleftrightarrow> i = m \<or> rungAt (fst t ! row) i" for i
      using rl by (simp add: nth_setRung rungAt_jsSet)
    have na: "noAdjacent (setRung (fst t) row m ! row)"
      unfolding noAdjacent_def
    proof (intro allI notI)
      fix i
      assume a: "rungAt (setRung (fst t) row m ! row) i \<and> rungAt (setRung (fst t) row m ! row) (Suc i)"
      then consider "i = m" "rungAt (fst t ! row) (Suc m)"
        | "Suc i = m" "rungAt (fst t ! row) i"
        | "rungAt (fst t ! row) i" "rungAt (fst t ! row) (Suc i)"
        unfolding r by auto
      then show False
      proof cases
        case 1
        then show False using IH(4) [of "Suc m"] by simp
      next
        case 2
        then show False using prev by auto
      next
        case 3
        then show False using IH(3) unfolding noAdjacent_def by blast
      qed
    qed
    have other: "setRung (fst t) row m ! r' = fst s ! r'" if "r' \<noteq> row" for r'
      using that rl IH(2) by (simp add: nth_setRung)
    have later: "\<not> rungAt (setRung (fst t) row m ! row) i" if "Suc m \<le> i" for i
      using that IH(4) [of i] unfolding r by simp
    show ?thesis
      unfolding step set using IH(1) na other later by simp
  qed
qed

lemma chaosLoop_inv:
  assumes "\<forall>r<length g. emptyRow (g ! r)"
  shows "cr \<le> length g \<Longrightarrow>
         length (fst (chaosLoop rnd n cr (g, k))) = length g \<and>
         (\<forall>r<cr. noAdjacent (fst (chaosLoop rnd n cr (g, k)) ! r)) \<and>
         (\<forall>r\<ge>cr. fst (chaosLoop rnd n cr (g, k)) ! r = g ! r)"
proof (induction cr)
  case 0
  show ?case by (simp add: chaosLoop_def)
next
  case (Suc cr)
  define t where "t = chaosLoop rnd n cr (g, k)"
  have IH: "length (fst t) = length g" "\<And>r. r < cr \<Longrightarrow> noAdjacent (fst t ! r)"
    "\<And>r. cr \<le> r \<Longrightarrow> fst t ! r = g ! r"
    using Suc unfolding t_def by simp_all
  have step: "chaosLoop rnd n (Suc cr) (g, k) = fold (chaosCell rnd cr) [0..<n - 1] t"
    unfolding t_def chaosLoop_def by simp
  have rl: "cr < length (fst t)"
    using IH(1) Suc.prems by simp
  have "emptyRow (fst t ! cr)"
    using IH(3) [of cr] assms Suc.prems by simp
  from chaosCells_inv [OF rl this, of rnd "n - 1"]
  have C: "length (fst (fold (chaosCell rnd cr) [0..<n - 1] t)) = length (fst t)"
    "\<And>r. r \<noteq> cr \<Longrightarrow> fst (fold (chaosCell rnd cr) [0..<n - 1] t) ! r = fst t ! r"
    "noAdjacent (fst (fold (chaosCell rnd cr) [0..<n - 1] t) ! cr)"
    by simp_all
  have "noAdjacent (fst (fold (chaosCell rnd cr) [0..<n - 1] t) ! r)" if "r < Suc cr" for r
    using that C(2) [of r] C(3) IH(2) [of r] by (cases "r = cr") simp_all
  moreover have "fst (fold (chaosCell rnd cr) [0..<n - 1] t) ! r = g ! r" if "Suc cr \<le> r" for r
    using that C(2) [of r] IH(3) [of r] by simp
  ultimately show ?case
    unfolding step using C(1) IH(1) by simp
qed

section \<open>The correction rows\<close>

lemma placeCorrections_inv:
  assumes "length g = rc"
  shows "\<forall>r. cr \<le> r \<and> r < rc \<longrightarrow> emptyRow (g ! r) \<Longrightarrow> cr + length swaps \<le> rc \<Longrightarrow>
     snd (placeCorrections rc swaps (g, cr)) = cr + length swaps \<and>
     length (fst (placeCorrections rc swaps (g, cr))) = rc \<and>
     (\<forall>r<cr. fst (placeCorrections rc swaps (g, cr)) ! r = g ! r) \<and>
     (\<forall>t<length swaps. singleRung (swaps ! t) (fst (placeCorrections rc swaps (g, cr)) ! (cr + t))) \<and>
     (\<forall>r\<ge>cr + length swaps. fst (placeCorrections rc swaps (g, cr)) ! r = g ! r)"
  using assms
proof (induction swaps arbitrary: g cr)
  case Nil
  then show ?case by simp
next
  case (Cons s rest)
  define g1 where "g1 = setRung g cr s"
  have cr: "cr < rc"
    using Cons.prems(2) by simp
  have step: "placeCorrections rc (s # rest) (g, cr) = placeCorrections rc rest (g1, Suc cr)"
    using cr by (simp add: g1_def)
  have g1: "length g1 = rc" "\<And>r. r \<noteq> cr \<Longrightarrow> g1 ! r = g ! r" "g1 ! cr = jsSet (g ! cr) s True"
    using Cons.prems(3) cr by (simp_all add: g1_def nth_setRung)
  have e1: "\<forall>r. Suc cr \<le> r \<and> r < rc \<longrightarrow> emptyRow (g1 ! r)"
    using Cons.prems(1) g1(2) by simp
  have "Suc cr + length rest \<le> rc"
    using Cons.prems(2) by simp
  from Cons.IH [OF e1 this g1(1)]
  have IH: "snd (placeCorrections rc rest (g1, Suc cr)) = Suc cr + length rest"
    "length (fst (placeCorrections rc rest (g1, Suc cr))) = rc"
    "\<And>r. r < Suc cr \<Longrightarrow> fst (placeCorrections rc rest (g1, Suc cr)) ! r = g1 ! r"
    "\<And>t. t < length rest \<Longrightarrow> singleRung (rest ! t) (fst (placeCorrections rc rest (g1, Suc cr)) ! (Suc cr + t))"
    "\<And>r. Suc cr + length rest \<le> r \<Longrightarrow> fst (placeCorrections rc rest (g1, Suc cr)) ! r = g1 ! r"
    by simp_all
  have single0: "singleRung s (fst (placeCorrections rc rest (g1, Suc cr)) ! cr)"
    using IH(3) [of cr] g1(3) Cons.prems(1) cr by (simp add: singleRung_jsSet)
  have singles: "singleRung ((s # rest) ! t) (fst (placeCorrections rc rest (g1, Suc cr)) ! (cr + t))"
    if "t < length (s # rest)" for t
  proof (cases t)
    case 0
    then show ?thesis using single0 by simp
  next
    case (Suc t')
    then show ?thesis using IH(4) [of t'] that by simp
  qed
  have before: "fst (placeCorrections rc rest (g1, Suc cr)) ! r = g ! r" if "r < cr" for r
    using that IH(3) [of r] g1(2) [of r] by simp
  have after: "fst (placeCorrections rc rest (g1, Suc cr)) ! r = g ! r"
    if "cr + length (s # rest) \<le> r" for r
    using that IH(5) [of r] g1(2) [of r] by simp
  show ?case
    unfolding step using IH(1,2) singles before after by simp
qed

lemma fold_stepCol_singles:
  assumes "list_all2 singleRung swaps rows" "\<forall>s\<in>set swaps. Suc s < n"
  shows "fold (stepCol n) rows c = fold crossRung swaps c"
  using assms
proof (induction swaps rows arbitrary: c rule: list_all2_induct)
  case Nil
  show ?case by simp
next
  case (Cons s swaps row rows)
  then show ?case
    by (simp add: stepCol_single)
qed

section \<open>The filler phase\<close>

lemma stepCol_pair:
  assumes "singleRung s r1" "singleRung s r2" "c < n"
  shows "stepCol n r2 (stepCol n r1 c) = c"
proof -
  have "rungAt r2 i = rungAt r1 i" for i
    using assms(1,2) by (simp add: singleRung_def)
  then have "stepCol n r2 (stepCol n r1 c) = stepCol n r1 (stepCol n r1 c)"
    by (rule stepCol_cong)
  also have "\<dots> = c"
    using assms(1,3) by (simp add: stepCol_involution singleRung_noAdjacent)
  finally show ?thesis .
qed

lemma fillerLoop_inv:
  assumes "length g = rc" "\<forall>r. row \<le> r \<and> r < rc \<longrightarrow> emptyRow (g ! r)"
  shows "length (fst (fillerLoop rnd n rc row g k)) = rc \<and>
         (\<forall>r<row. fst (fillerLoop rnd n rc row g k) ! r = g ! r) \<and>
         (\<forall>r. row \<le> r \<and> r < rc \<longrightarrow> noAdjacent (fst (fillerLoop rnd n rc row g k) ! r)) \<and>
         (\<forall>c<n. fold (stepCol n) (drop row (fst (fillerLoop rnd n rc row g k))) c = c) \<and>
         (\<forall>j i. row + 2 * j + 1 < rc \<longrightarrow>
            rungAt (fst (fillerLoop rnd n rc row g k) ! (row + 2 * j)) i
              = rungAt (fst (fillerLoop rnd n rc row g k) ! (row + 2 * j + 1)) i)"
  using assms
proof (induction rnd n rc row g k rule: fillerLoop.induct)
  case (1 rnd n rc row g k)
  show ?case
  proof (cases "row < rc - 1")
    case False
    then have res: "fillerLoop rnd n rc row g k = (g, k)"
      by (simp add: fillerLoop.simps)
    have "\<forall>r\<in>set (drop row g). emptyRow r"
      using "1.prems" by (auto simp: in_set_conv_nth)
    then have "fold (stepCol n) (drop row g) c = c" for c
      by (rule fold_stepCol_empty)
    moreover have "\<not> row + 2 * j + 1 < rc" for j
      using False by simp
    ultimately show ?thesis
      unfolding res using "1.prems" by (simp add: emptyRow_noAdjacent)
  next
    case True
    define col where "col = randomIndex rnd k (n - 1)"
    define g' where "g' = setRung (setRung g row col) (row + 1) col"
    have rows: "row < rc" "row + 1 < rc"
      using True by simp_all
    have e0: "emptyRow (g ! row)" and e1: "emptyRow (g ! (row + 1))"
      using "1.prems"(2) rows by simp_all
    have noprev: "\<not> (col > 0 \<and> rungAt (g ! row) (col - 1))"
      and nonext: "\<not> (col < n - 2 \<and> rungAt (g ! row) (col + 1))"
      using e0 by (simp_all add: emptyRow_def)
    have g'_eq: "(if \<not> (col > 0 \<and> rungAt (g ! row) (col - 1)) \<and> \<not> (col < n - 2 \<and> rungAt (g ! row) (col + 1))
                then (let g1 = setRung g row col in if row + 1 < rc then setRung g1 (row + 1) col else g1)
                else g) = g'"
      using noprev nonext rows by (simp add: g'_def Let_def)
    have res: "fillerLoop rnd n rc row g k = fillerLoop rnd n rc (row + 2) g' (Suc k)"
      using True g'_eq [unfolded col_def Let_def]
      by (subst fillerLoop.simps) (simp only: Let_def if_True)
    have len': "length g' = rc"
      using "1.prems"(1) by (simp add: g'_def)
    have nth': "g' ! r = (if r = row \<or> r = row + 1 then jsSet (g ! r) col True else g ! r)" for r
      using rows "1.prems"(1) by (simp add: g'_def nth_setRung)
    have empty': "\<forall>r. row + 2 \<le> r \<and> r < rc \<longrightarrow> emptyRow (g' ! r)"
      using "1.prems"(2) by (simp add: nth')
    let ?res = "fst (fillerLoop rnd n rc (row + 2) g' (Suc k))"
    have IH: "length ?res = rc" "\<And>r. r < row + 2 \<Longrightarrow> ?res ! r = g' ! r"
      "\<And>r. row + 2 \<le> r \<Longrightarrow> r < rc \<Longrightarrow> noAdjacent (?res ! r)"
      "\<And>c. c < n \<Longrightarrow> fold (stepCol n) (drop (row + 2) ?res) c = c"
      "\<And>j i. row + 2 + 2 * j + 1 < rc \<Longrightarrow>
         rungAt (?res ! (row + 2 + 2 * j)) i = rungAt (?res ! (row + 2 + 2 * j + 1)) i"
      using "1.IH" [OF True col_def refl refl g'_eq [symmetric] len' empty'] by simp_all
    have s0: "singleRung col (?res ! row)"
      using IH(2) [of row] e0 by (simp add: nth' singleRung_jsSet)
    have s1: "singleRung col (?res ! (row + 1))"
      using IH(2) [of "row + 1"] e1 by (simp add: nth' singleRung_jsSet)
    have dr: "drop row ?res = ?res ! row # ?res ! (row + 1) # drop (row + 2) ?res"
      using rows IH(1) by (simp add: Cons_nth_drop_Suc)
    have id: "fold (stepCol n) (drop row ?res) c = c" if "c < n" for c
    proof -
      have pair_id: "stepCol n (?res ! (row + 1)) (stepCol n (?res ! row) c) = c"
        using s0 s1 that by (rule stepCol_pair)
      show ?thesis
        unfolding dr using IH(4) [of c] that pair_id by simp
    qed
    have before: "?res ! r = g ! r" if "r < row" for r
      using that IH(2) [of r] by (simp add: nth')
    have na: "noAdjacent (?res ! r)" if r1: "row \<le> r" and r2: "r < rc" for r
    proof -
      consider "r = row" | "r = row + 1" | "row + 2 \<le> r"
        using r1 by linarith
      then show ?thesis
      proof cases
        case 1
        then show ?thesis using s0 by (simp add: singleRung_noAdjacent)
      next
        case 2
        then show ?thesis using s1 by (simp add: singleRung_noAdjacent)
      next
        case 3
        then show ?thesis using IH(3) r2 by simp
      qed
    qed
    have paired: "rungAt (?res ! (row + 2 * j)) i = rungAt (?res ! (row + 2 * j + 1)) i"
      if "row + 2 * j + 1 < rc" for j i
    proof (cases j)
      case 0
      then show ?thesis
        using s0 s1 by (simp add: singleRung_def)
    next
      case (Suc j')
      then show ?thesis
        using IH(5) [of j' i] that by simp
    qed
    show ?thesis
      unfolding res using IH(1) before na id paired by simp
  qed
qed

lemma fold_stepCol_split:
  "fold (stepCol n) g c = fold (stepCol n) (drop m g) (fold (stepCol n) (take m g) c)"
proof -
  have "fold (stepCol n) (take m g @ drop m g) c
      = fold (stepCol n) (drop m g) (fold (stepCol n) (take m g) c)"
    by (simp only: fold_append comp_def)
  then show ?thesis by simp
qed

lemma fillerLoop_simulate:
  assumes "length g = rc" "\<forall>r. row \<le> r \<and> r < rc \<longrightarrow> emptyRow (g ! r)"
  shows "simulatePermutation (fst (fillerLoop rnd n rc row g k)) n = simulatePermutation g n"
proof -
  let ?g' = "fst (fillerLoop rnd n rc row g k)"
  from fillerLoop_inv [OF assms, where rnd = rnd and n = n and k = k]
  have inv: "length ?g' = rc" "\<And>r. r < row \<Longrightarrow> ?g' ! r = g ! r"
    "\<And>c. c < n \<Longrightarrow> fold (stepCol n) (drop row ?g') c = c"
    by simp_all
  have tk: "take row ?g' = take row g"
    by (simp add: list_eq_iff_nth_eq inv(1,2) assms(1))
  have "\<forall>r\<in>set (drop row g). emptyRow r"
    using assms by (auto simp: in_set_conv_nth)
  then have old: "fold (stepCol n) (drop row g) c = c" for c
    by (rule fold_stepCol_empty)
  have "fold (stepCol n) ?g' c = fold (stepCol n) g c" if "c < n" for c
  proof -
    have "fold (stepCol n) ?g' c = fold (stepCol n) (drop row ?g') (fold (stepCol n) (take row g) c)"
      using fold_stepCol_split [of n ?g' c row] tk by simp
    also have "\<dots> = fold (stepCol n) (take row g) c"
      using that by (intro inv(3)) (simp add: fold_stepCol_less)
    also have "\<dots> = fold (stepCol n) g c"
      using fold_stepCol_split [of n g c row] old by simp
    finally show ?thesis .
  qed
  then show ?thesis
    by (simp add: simulatePermutation_def)
qed


lemma all_false_emptyRow:
  assumes "\<forall>row\<in>set (drop cr g). \<forall>b\<in>set row. \<not> b"
  shows "\<forall>r. cr \<le> r \<and> r < length g \<longrightarrow> emptyRow (g ! r)"
proof (intro allI impI)
  fix r assume r: "cr \<le> r \<and> r < length g"
  then have "drop cr g ! (r - cr) = g ! r" "r - cr < length (drop cr g)"
    by (simp, simp add: diff_less_mono)
  then have "g ! r \<in> set (drop cr g)"
    by (metis nth_mem)
  with assms have allF: "\<forall>b\<in>set (g ! r). \<not> b"
    by (rule bspec)
  show "emptyRow (g ! r)"
    unfolding emptyRow_def rungAt_def
  proof (intro allI notI)
    fix i assume i: "i < length (g ! r) \<and> g ! r ! i"
    then have "g ! r ! i \<in> set (g ! r)"
      by (intro nth_mem) simp
    with allF have "\<not> g ! r ! i"
      by (rule bspec)
    with i show False by simp
  qed
qed

text \<open>
  C7: the filler loop never alters the realized permutation.  For every grid of
  \<open>rowCount\<close> rows whose rows from \<open>correctionRow\<close> onward hold no rung, and every
  sequence of random values, the grid after the loop induces the same column mapping as
  the grid before it, by \<open>simulatePermutation\<close> and by \<open>computeAllResults\<close>; and
  the rows \<open>correctionRow + 2j\<close> and \<open>correctionRow + 2j + 1\<close> of the result have
  their rungs at the same slots.
\<close>

theorem fillerLoop_preserves_permutation:
  assumes "validRandom rnd" "1 \<le> n" "length g = rc"
    "\<forall>row\<in>set (drop correctionRow g). \<forall>b\<in>set row. \<not> b"
  shows "simulatePermutation (fst (fillerLoop rnd n rc correctionRow g k)) n
           = simulatePermutation g n \<and>
         computeAllResults \<lparr>rungs = fst (fillerLoop rnd n rc correctionRow g k), rowCount = rc\<rparr> n
           = computeAllResults \<lparr>rungs = g, rowCount = rc\<rparr> n \<and>
         (\<forall>j i. correctionRow + 2 * j + 1 < rc \<longrightarrow>
            rungAt (fst (fillerLoop rnd n rc correctionRow g k) ! (correctionRow + 2 * j)) i
              = rungAt (fst (fillerLoop rnd n rc correctionRow g k) ! (correctionRow + 2 * j + 1)) i)"
proof -
  have e: "\<forall>r. correctionRow \<le> r \<and> r < rc \<longrightarrow> emptyRow (g ! r)"
    using all_false_emptyRow [OF assms(4)] assms(3) by simp
  have sim: "simulatePermutation (fst (fillerLoop rnd n rc correctionRow g k)) n
           = simulatePermutation g n"
    by (rule fillerLoop_simulate [OF assms(3) e])
  have len: "length (fst (fillerLoop rnd n rc correctionRow g k)) = rc"
    using fillerLoop_inv [OF assms(3) e, where rnd = rnd and n = n and k = k] by simp
  have "computeAllResults \<lparr>rungs = fst (fillerLoop rnd n rc correctionRow g k), rowCount = rc\<rparr> n
           = computeAllResults \<lparr>rungs = g, rowCount = rc\<rparr> n"
    using sim len assms(3) by (simp add: computeAllResults_simulate)
  moreover have "\<forall>j i. correctionRow + 2 * j + 1 < rc \<longrightarrow>
            rungAt (fst (fillerLoop rnd n rc correctionRow g k) ! (correctionRow + 2 * j)) i
              = rungAt (fst (fillerLoop rnd n rc correctionRow g k) ! (correctionRow + 2 * j + 1)) i"
    using fillerLoop_inv [OF assms(3) e, where rnd = rnd and n = n and k = k] by simp
  ultimately show ?thesis
    using sim by simp
qed

theorem fillerLoop_preserves_permutation_witness:
  "simulatePermutation (fst (fillerLoop (\<lambda>k. 1 / 2) 3 4 1
       [[True, False], [False, False], [False, False], [False, False]] 0)) 3
     = simulatePermutation [[True, False], [False, False], [False, False], [False, False]] 3"
  using fillerLoop_preserves_permutation [of "\<lambda>k. 1 / 2" 3
      "[[True, False], [False, False], [False, False], [False, False]]" 4 1 0]
  by (simp add: validRandom_def)

section \<open>Permutations as lists\<close>

lemma isPerm_length: "isPerm p n \<Longrightarrow> length p = n"
  unfolding isPerm_def using mset_eq_length by fastforce

lemma isPerm_distinct: "isPerm p n \<Longrightarrow> distinct p"
  unfolding isPerm_def using mset_eq_imp_distinct_iff [of p "[0..<n]"] by simp

lemma isPerm_set: "isPerm p n \<Longrightarrow> set p = {0..<n}"
  unfolding isPerm_def using mset_eq_setD [of p "[0..<n]"] by simp

lemma isPerm_nth_less: "isPerm p n \<Longrightarrow> i < n \<Longrightarrow> p ! i < n"
  using isPerm_set [of p n] isPerm_length [of p n] nth_mem [of i p] by simp

lemma isPerm_inj: "isPerm p n \<Longrightarrow> i < n \<Longrightarrow> j < n \<Longrightarrow> p ! i = p ! j \<Longrightarrow> i = j"
  using isPerm_distinct [of p n] isPerm_length [of p n] by (simp add: nth_eq_iff_index_eq)

lemma isPerm_surj:
  assumes "isPerm p n" "j < n"
  shows "\<exists>i<n. p ! i = j"
proof -
  have "j \<in> set p"
    using assms by (simp add: isPerm_set)
  then show ?thesis
    using isPerm_length [OF assms(1)] by (auto simp: in_set_conv_nth)
qed

lemma isPermI:
  assumes "length p = n" "distinct p" "\<forall>v\<in>set p. v < n"
  shows "isPerm p n"
proof -
  have sub: "set p \<subseteq> {0..<n}"
    using assms(3) by auto
  have "card (set p) = n"
    using assms(1,2) distinct_card [of p] by simp
  then have "set p = {0..<n}"
    using sub by (intro card_subset_eq) simp_all
  then have "set p = set [0..<n]"
    by simp
  moreover have "(set p = set [0..<n]) = (mset p = mset [0..<n])"
    using assms(2) distinct_upt by (rule set_eq_iff_mset_eq_distinct)
  ultimately show ?thesis
    unfolding isPerm_def by blast
qed

lemma isPermI_nth:
  assumes "length p = n" "\<And>i. i < n \<Longrightarrow> p ! i < n"
    "\<And>i j. i < n \<Longrightarrow> j < n \<Longrightarrow> p ! i = p ! j \<Longrightarrow> i = j"
  shows "isPerm p n"
proof (rule isPermI [OF assms(1)])
  show "distinct p"
    unfolding distinct_conv_nth using assms(1,3) by blast
  show "\<forall>v\<in>set p. v < n"
    using assms(1,2) by (auto simp: in_set_conv_nth)
qed

lemma simulatePermutation_isPerm:
  "\<forall>row\<in>set g. noAdjacent row \<Longrightarrow> isPerm (simulatePermutation g n) n"
  using simulatePermutation_perm [of g n] by (intro isPermI) simp_all

lemma isPerm_containsEachOnce: "isPerm p n \<Longrightarrow> containsEachOnce p n"
  unfolding isPerm_def by (rule mset_containsEachOnce)

section \<open>Inverse and correction\<close>

lemma inverseOf_fold:
  assumes "isPerm p n"
  shows "m \<le> n \<Longrightarrow>
     length (fold (\<lambda>i inv. inv[p ! i := i]) [0..<m] (replicate n 0)) = n \<and>
     (\<forall>i<m. fold (\<lambda>i inv. inv[p ! i := i]) [0..<m] (replicate n 0) ! (p ! i) = i)"
proof (induction m)
  case 0
  show ?case by simp
next
  case (Suc m)
  define inv where "inv = fold (\<lambda>i inv. inv[p ! i := i]) [0..<m] (replicate n 0)"
  have IH: "length inv = n" "\<And>i. i < m \<Longrightarrow> inv ! (p ! i) = i"
    using Suc unfolding inv_def by simp_all
  have step: "fold (\<lambda>i inv. inv[p ! i := i]) [0..<Suc m] (replicate n 0) = inv[p ! m := m]"
    unfolding inv_def by simp
  have pm: "p ! m < n"
    using assms Suc.prems by (simp add: isPerm_nth_less)
  have "inv[p ! m := m] ! (p ! i) = i" if "i < Suc m" for i
  proof (cases "i = m")
    case True
    then show ?thesis using pm IH(1) by simp
  next
    case False
    then have "i < m" using that by simp
    moreover have "p ! i \<noteq> p ! m"
      using isPerm_inj [OF assms, of i m] False that Suc.prems by auto
    ultimately show ?thesis
      using IH(2) by simp
  qed
  then show ?case
    unfolding step using IH(1) by simp
qed

lemma inverseOf_spec:
  assumes "isPerm p n"
  shows "length (inverseOf p n) = n" "i < n \<Longrightarrow> inverseOf p n ! (p ! i) = i"
  using inverseOf_fold [OF assms, of n] by (simp_all add: inverseOf_def)

lemma inverseOf_right:
  assumes "isPerm p n" "j < n"
  shows "inverseOf p n ! j < n" "p ! (inverseOf p n ! j) = j"
proof -
  obtain i where i: "i < n" "p ! i = j"
    using isPerm_surj [OF assms] by blast
  then have "inverseOf p n ! j = i"
    using inverseOf_spec(2) [OF assms(1), of i] by simp
  then show "inverseOf p n ! j < n" "p ! (inverseOf p n ! j) = j"
    using i by simp_all
qed

lemma inverseOf_isPerm:
  assumes "isPerm p n"
  shows "isPerm (inverseOf p n) n"
proof (rule isPermI_nth)
  show "length (inverseOf p n) = n"
    by (rule inverseOf_spec(1) [OF assms])
  show "inverseOf p n ! i < n" if "i < n" for i
    using that by (rule inverseOf_right(1) [OF assms])
  show "i = j" if ij: "i < n" "j < n" and eq: "inverseOf p n ! i = inverseOf p n ! j" for i j
  proof -
    have "i = p ! (inverseOf p n ! i)"
      by (rule inverseOf_right(2) [OF assms ij(1), symmetric])
    also have "\<dots> = p ! (inverseOf p n ! j)"
      by (rule arg_cong [OF eq])
    also have "\<dots> = j"
      by (rule inverseOf_right(2) [OF assms ij(2)])
    finally show ?thesis .
  qed
qed

lemma fold_assign:
  "m \<le> length xs \<Longrightarrow>
   length (fold (\<lambda>i c. c[i := f i]) [0..<m] xs) = length xs \<and>
   (\<forall>i<length xs. fold (\<lambda>i c. c[i := f i]) [0..<m] xs ! i = (if i < m then f i else xs ! i))"
proof (induction m)
  case 0
  show ?case by simp
next
  case (Suc m)
  then show ?case
    by (simp add: nth_list_update less_Suc_eq)
qed

lemma correctionOf_spec:
  "length (correctionOf targetPerm currentInverse n) = n"
  "i < n \<Longrightarrow> correctionOf targetPerm currentInverse n ! i = targetPerm ! (currentInverse ! i)"
  using fold_assign [of n "replicate n 0" "\<lambda>i. targetPerm ! (currentInverse ! i)"]
  by (simp_all add: correctionOf_def)

lemma correctionOf_isPerm:
  assumes "isPerm targetPerm n" "isPerm currentInverse n"
  shows "isPerm (correctionOf targetPerm currentInverse n) n"
proof (rule isPermI_nth)
  show "length (correctionOf targetPerm currentInverse n) = n"
    by (rule correctionOf_spec(1))
  show "correctionOf targetPerm currentInverse n ! i < n" if "i < n" for i
    using that assms by (simp add: correctionOf_spec(2) isPerm_nth_less)
  show "i = j" if ij: "i < n" "j < n" and
    eq: "correctionOf targetPerm currentInverse n ! i = correctionOf targetPerm currentInverse n ! j"
    for i j
  proof -
    have ci: "currentInverse ! i < n" and cj: "currentInverse ! j < n"
      using assms(2) ij by (simp_all add: isPerm_nth_less)
    have "targetPerm ! (currentInverse ! i) = targetPerm ! (currentInverse ! j)"
      using eq unfolding correctionOf_spec(2) [OF ij(1)] correctionOf_spec(2) [OF ij(2)] .
    then have "currentInverse ! i = currentInverse ! j"
      by (rule isPerm_inj [OF assms(1) ci cj])
    then show ?thesis
      by (rule isPerm_inj [OF assms(2) ij])
  qed
qed

section \<open>The correction swaps\<close>

lemma isPerm_swapElems:
  "isPerm state n \<Longrightarrow> i < n \<Longrightarrow> j < n \<Longrightarrow> isPerm (swapElems state i j) n"
  unfolding isPerm_def using mset_eq_length [of state "[0..<n]"]
  by (simp add: mset_swapElems)

lemma fold_crossRung_less:
  "\<forall>s\<in>set swaps. Suc s < n \<Longrightarrow> c < n \<Longrightarrow> fold crossRung swaps c < n"
  by (induction swaps arbitrary: c) (simp_all add: crossRung_less)

lemma indexOf_Some:
  "v \<in> set xs \<Longrightarrow> \<exists>pos. indexOf xs v = Some pos \<and> pos < length xs \<and> xs ! pos = v"
proof (induction xs)
  case Nil
  then show ?case by simp
next
  case (Cons a xs)
  show ?case
  proof (cases "a = v")
    case True
    then show ?thesis by simp
  next
    case False
    then have "v \<in> set xs" using Cons.prems by simp
    then obtain pos where "indexOf xs v = Some pos" "pos < length xs" "xs ! pos = v"
      using Cons.IH by blast
    then show ?thesis using False by simp
  qed
qed

text \<open>
  The invariant of the swap recording: \<open>state\<close> is a permutation, every recorded slot
  is a slot of the grid, and the token that started in column \<open>c\<close> sits where the
  recorded crossings take \<open>c\<close>.
\<close>

lemma bubbleLeft_inv:
  assumes "isPerm state n" "\<forall>s\<in>set swaps. Suc s < n"
    "\<forall>c<n. state ! (fold crossRung swaps c) = c" "i \<le> pos" "pos < n"
  shows "isPerm (fst (bubbleLeft i pos (state, swaps))) n \<and>
     (\<forall>s\<in>set (snd (bubbleLeft i pos (state, swaps))). Suc s < n) \<and>
     (\<forall>c<n. fst (bubbleLeft i pos (state, swaps)) ! (fold crossRung (snd (bubbleLeft i pos (state, swaps))) c) = c) \<and>
     fst (bubbleLeft i pos (state, swaps)) ! i = state ! pos \<and>
     (\<forall>t<i. fst (bubbleLeft i pos (state, swaps)) ! t = state ! t) \<and>
     length (snd (bubbleLeft i pos (state, swaps))) = length swaps + (pos - i)"
  using assms
proof (induction pos arbitrary: state swaps)
  case 0
  then show ?case
    by (simp add: bubbleLeft.simps)
next
  case (Suc p)
  show ?case
  proof (cases "i = Suc p")
    case True
    then show ?thesis
      using Suc.prems by (simp add: bubbleLeft.simps)
  next
    case False
    then have ip: "i \<le> p" and gt: "Suc p > i"
      using Suc.prems(4) by simp_all
    define state1 where "state1 = swapElems state (Suc p) p"
    define swaps1 where "swaps1 = swaps @ [p]"
    have step: "bubbleLeft i (Suc p) (state, swaps) = bubbleLeft i p (state1, swaps1)"
      using gt by (subst bubbleLeft.simps) (simp add: state1_def swaps1_def)
    have len: "length state = n"
      using Suc.prems(1) by (rule isPerm_length)
    have pn: "p < n" "Suc p < n"
      using Suc.prems(5) by simp_all
    have nth1: "state1 ! v = (if v = p then state ! Suc p else if v = Suc p then state ! p else state ! v)"
      if "v < n" for v
      unfolding state1_def using that pn len by (simp add: nth_swapElems)
    have P1: "isPerm state1 n"
      unfolding state1_def using Suc.prems(1) pn(2) pn(1) by (rule isPerm_swapElems)
    have S1: "\<forall>s\<in>set swaps1. Suc s < n"
      using Suc.prems(2) pn by (simp add: swaps1_def)
    have T1: "\<forall>c<n. state1 ! (fold crossRung swaps1 c) = c"
    proof (intro allI impI)
      fix c assume c: "c < n"
      define v where "v = fold crossRung swaps c"
      have v: "v < n" "state ! v = c"
        unfolding v_def using Suc.prems(2,3) c by (simp_all add: fold_crossRung_less)
      have "fold crossRung swaps1 c = crossRung p v"
        by (simp add: swaps1_def v_def)
      moreover have "state1 ! crossRung p v = c"
        using v pn by (auto simp: crossRung_def nth1)
      ultimately show "state1 ! (fold crossRung swaps1 c) = c"
        by simp
    qed
    from Suc.IH [OF P1 S1 T1 ip pn(1)]
    have IH: "isPerm (fst (bubbleLeft i p (state1, swaps1))) n"
      "\<forall>s\<in>set (snd (bubbleLeft i p (state1, swaps1))). Suc s < n"
      "\<forall>c<n. fst (bubbleLeft i p (state1, swaps1)) ! (fold crossRung (snd (bubbleLeft i p (state1, swaps1))) c) = c"
      "fst (bubbleLeft i p (state1, swaps1)) ! i = state1 ! p"
      "\<And>t. t < i \<Longrightarrow> fst (bubbleLeft i p (state1, swaps1)) ! t = state1 ! t"
      "length (snd (bubbleLeft i p (state1, swaps1))) = length swaps1 + (p - i)"
      by simp_all
    have a: "fst (bubbleLeft i p (state1, swaps1)) ! i = state ! Suc p"
      using IH(4) pn by (simp add: nth1)
    have b: "fst (bubbleLeft i p (state1, swaps1)) ! t = state ! t" if "t < i" for t
      using IH(5) [OF that] that ip pn by (simp add: nth1)
    have c: "length (snd (bubbleLeft i p (state1, swaps1))) = length swaps + (Suc p - i)"
      using IH(6) ip by (simp add: swaps1_def)
    show ?thesis
      unfolding step using IH(1,2,3) a b c by simp
  qed
qed

lemma correctionStep_inv:
  assumes cinv: "isPerm cinv n"
    and st: "isPerm state n" "\<forall>s\<in>set swaps. Suc s < n"
      "\<forall>c<n. state ! (fold crossRung swaps c) = c"
    and fixed: "\<forall>t<m. state ! t = cinv ! t"
    and bound: "2 * length swaps + (n - m) * (n - m - 1) \<le> n * (n - 1)"
    and m: "m < n"
  shows "isPerm (fst (correctionStep cinv m (state, swaps))) n \<and>
     (\<forall>s\<in>set (snd (correctionStep cinv m (state, swaps))). Suc s < n) \<and>
     (\<forall>c<n. fst (correctionStep cinv m (state, swaps))
               ! (fold crossRung (snd (correctionStep cinv m (state, swaps))) c) = c) \<and>
     (\<forall>t<Suc m. fst (correctionStep cinv m (state, swaps)) ! t = cinv ! t) \<and>
     2 * length (snd (correctionStep cinv m (state, swaps))) + (n - Suc m) * (n - Suc m - 1)
       \<le> n * (n - 1)"
proof -
  have "cinv ! m \<in> set state"
    using isPerm_set [OF st(1)] isPerm_nth_less [OF cinv m] by simp
  then obtain pos where pos: "indexOf state (cinv ! m) = Some pos" "pos < length state"
    "state ! pos = cinv ! m"
    using indexOf_Some by blast
  have pn: "pos < n"
    using pos(2) isPerm_length [OF st(1)] by simp
  have mp: "m \<le> pos"
  proof (rule ccontr)
    assume "\<not> m \<le> pos"
    then have lt: "pos < m" by simp
    have pm: "pos < n"
      using lt m by simp
    have "state ! pos = cinv ! pos"
      using fixed lt by blast
    then have "cinv ! pos = cinv ! m"
      using pos(3) by (rule trans [OF sym])
    then have "pos = m"
      by (rule isPerm_inj [OF cinv pm m])
    with lt show False by simp
  qed
  have step: "correctionStep cinv m (state, swaps) = bubbleLeft m pos (state, swaps)"
    by (simp add: correctionStep_def pos(1))
  from bubbleLeft_inv [OF st mp pn]
  have B: "isPerm (fst (bubbleLeft m pos (state, swaps))) n"
    "\<forall>s\<in>set (snd (bubbleLeft m pos (state, swaps))). Suc s < n"
    "\<forall>c<n. fst (bubbleLeft m pos (state, swaps)) ! (fold crossRung (snd (bubbleLeft m pos (state, swaps))) c) = c"
    "fst (bubbleLeft m pos (state, swaps)) ! m = state ! pos"
    "\<And>t. t < m \<Longrightarrow> fst (bubbleLeft m pos (state, swaps)) ! t = state ! t"
    "length (snd (bubbleLeft m pos (state, swaps))) = length swaps + (pos - m)"
    by simp_all
  have d: "fst (bubbleLeft m pos (state, swaps)) ! t = cinv ! t" if "t < Suc m" for t
  proof (cases "t = m")
    case True
    then show ?thesis using B(4) pos(3) by simp
  next
    case False
    then have "t < m" using that by simp
    then show ?thesis using B(5) fixed by simp
  qed
  obtain q where q: "n - m = Suc q"
    using m by (cases "n - m") simp_all
  have "pos - m \<le> q"
    using pn q by simp
  moreover have "(n - m) * (n - m - 1) = q * (q - 1) + 2 * q"
    unfolding q by (cases q) simp_all
  moreover have "n - Suc m = q"
    using q by simp
  ultimately have e: "2 * length (snd (bubbleLeft m pos (state, swaps))) + (n - Suc m) * (n - Suc m - 1)
       \<le> n * (n - 1)"
    using bound B(6) by simp
  show ?thesis
    unfolding step using B(1,2,3) d e by simp
qed

lemma correctionLoop_inv:
  assumes cinv: "isPerm cinv n"
  shows "m \<le> n \<Longrightarrow>
     isPerm (fst (fold (correctionStep cinv) [0..<m] ([0..<n], []))) n \<and>
     (\<forall>s\<in>set (snd (fold (correctionStep cinv) [0..<m] ([0..<n], []))). Suc s < n) \<and>
     (\<forall>c<n. fst (fold (correctionStep cinv) [0..<m] ([0..<n], []))
               ! (fold crossRung (snd (fold (correctionStep cinv) [0..<m] ([0..<n], []))) c) = c) \<and>
     (\<forall>t<m. fst (fold (correctionStep cinv) [0..<m] ([0..<n], [])) ! t = cinv ! t) \<and>
     2 * length (snd (fold (correctionStep cinv) [0..<m] ([0..<n], []))) + (n - m) * (n - m - 1)
       \<le> n * (n - 1)"
proof (induction m)
  case 0
  show ?case by (simp add: isPerm_def)
next
  case (Suc m)
  obtain state swaps where s: "fold (correctionStep cinv) [0..<m] ([0..<n], []) = (state, swaps)"
    by (cases "fold (correctionStep cinv) [0..<m] ([0..<n], [])")
  have IH: "isPerm state n" "\<forall>s\<in>set swaps. Suc s < n"
    "\<forall>c<n. state ! (fold crossRung swaps c) = c" "\<forall>t<m. state ! t = cinv ! t"
    "2 * length swaps + (n - m) * (n - m - 1) \<le> n * (n - 1)"
    using Suc s by simp_all
  have step: "fold (correctionStep cinv) [0..<Suc m] ([0..<n], []) = correctionStep cinv m (state, swaps)"
    by (simp add: s)
  have m: "m < n" using Suc.prems by simp
  show ?case
    unfolding step by (rule correctionStep_inv [OF cinv IH m])
qed

lemma correctionSwapsOf_spec:
  assumes "isPerm corr n"
  shows "\<forall>s\<in>set (correctionSwapsOf (inverseOf corr n) n). Suc s < n"
    and "c < n \<Longrightarrow> fold crossRung (correctionSwapsOf (inverseOf corr n) n) c = corr ! c"
    and "2 * length (correctionSwapsOf (inverseOf corr n) n) \<le> n * (n - 1)"
proof -
  define cinv where "cinv = inverseOf corr n"
  have cinv: "isPerm cinv n"
    unfolding cinv_def by (rule inverseOf_isPerm [OF assms])
  obtain state swaps where s: "fold (correctionStep cinv) [0..<n] ([0..<n], []) = (state, swaps)"
    by (cases "fold (correctionStep cinv) [0..<n] ([0..<n], [])")
  have sw: "correctionSwapsOf (inverseOf corr n) n = swaps"
    by (simp add: correctionSwapsOf_def cinv_def [symmetric] s)
  from correctionLoop_inv [OF cinv, of n]
  have L: "isPerm state n" "\<forall>s\<in>set swaps. Suc s < n"
    "\<And>c. c < n \<Longrightarrow> state ! (fold crossRung swaps c) = c" "\<And>t. t < n \<Longrightarrow> state ! t = cinv ! t"
    "2 * length swaps \<le> n * (n - 1)"
    by (simp_all add: s)
  show "\<forall>s\<in>set (correctionSwapsOf (inverseOf corr n) n). Suc s < n"
    unfolding sw by (rule L(2))
  show "2 * length (correctionSwapsOf (inverseOf corr n) n) \<le> n * (n - 1)"
    unfolding sw by (rule L(5))
  show "fold crossRung (correctionSwapsOf (inverseOf corr n) n) c = corr ! c" if c: "c < n"
  proof -
    define v where "v = fold crossRung swaps c"
    have v: "v < n"
      unfolding v_def using L(2) c by (rule fold_crossRung_less)
    have cc: "corr ! c < n"
      using assms c by (rule isPerm_nth_less)
    have "cinv ! v = state ! v"
      using L(4) [OF v] by simp
    also have "\<dots> = c"
      unfolding v_def by (rule L(3) [OF c])
    also have "\<dots> = cinv ! (corr ! c)"
      unfolding cinv_def by (rule inverseOf_spec(2) [OF assms c, symmetric])
    finally have "v = corr ! c"
      by (rule isPerm_inj [OF cinv v cc])
    then show ?thesis
      unfolding sw v_def .
  qed
qed

section \<open>The generated layout\<close>

lemma permutationToRungs_correct:
  assumes T: "isPerm T n" and n: "0 < n"
    and bound: "(n * (n - 1)) div 2 + max (rc div 2) (rc - ((n * (n - 1)) div 2 + 2)) \<le> rc"
  shows "\<exists>g k'. permutationToRungs rnd T rc k = Inr (g, k') \<and> length g = rc \<and>
           simulatePermutation g n = T \<and> (\<forall>row\<in>set g. noAdjacent row)"
proof -
  define chaosRows where "chaosRows = max (rc div 2) (rc - ((n * (n - 1)) div 2 + 2))"
  define g0 where "g0 = replicate rc (replicate (n - 1) False)"
  define g1 where "g1 = fst (chaosLoop rnd n chaosRows (g0, k))"
  define k1 where "k1 = snd (chaosLoop rnd n chaosRows (g0, k))"
  define P where "P = simulatePermutation (take chaosRows g1) n"
  define corr where "corr = correctionOf T (inverseOf P n) n"
  define swaps where "swaps = correctionSwapsOf (inverseOf corr n) n"
  define g2 where "g2 = fst (placeCorrections rc swaps (g1, chaosRows))"
  define cr where "cr = snd (placeCorrections rc swaps (g1, chaosRows))"
  define g3 where "g3 = fst (fillerLoop rnd n rc cr g2 k1)"
  have lenT: "length T = n"
    using T by (rule isPerm_length)
  have res: "permutationToRungs rnd T rc k = Inr (g3, snd (fillerLoop rnd n rc cr g2 k1))"
    unfolding g3_def cr_def g2_def swaps_def corr_def P_def k1_def g1_def g0_def chaosRows_def
    using n by (simp add: permutationToRungs_def Let_def split_beta lenT)
  have chaos_le: "chaosRows \<le> rc"
    using bound unfolding chaosRows_def by simp
  have e0: "\<forall>r<length g0. emptyRow (g0 ! r)"
    by (simp add: g0_def emptyRow_replicate)
  have len0: "length g0 = rc"
    by (simp add: g0_def)
  from chaosLoop_inv [OF e0, of chaosRows rnd n k] chaos_le
  have c1: "length g1 = rc" "\<And>r. r < chaosRows \<Longrightarrow> noAdjacent (g1 ! r)"
    "\<And>r. chaosRows \<le> r \<Longrightarrow> g1 ! r = g0 ! r"
    unfolding g1_def len0 by simp_all
  have e1: "\<forall>r. chaosRows \<le> r \<and> r < rc \<longrightarrow> emptyRow (g1 ! r)"
    using c1(3) e0 len0 by simp
  have "\<forall>row\<in>set (take chaosRows g1). noAdjacent row"
    using c1(1,2) chaos_le by (auto simp: in_set_conv_nth)
  then have P: "isPerm P n"
    unfolding P_def by (rule simulatePermutation_isPerm)
  have Pinv: "isPerm (inverseOf P n) n"
    using P by (rule inverseOf_isPerm)
  have corrP: "isPerm corr n"
    unfolding corr_def using T Pinv by (rule correctionOf_isPerm)
  have sw: "\<forall>s\<in>set swaps. Suc s < n" "\<And>c. c < n \<Longrightarrow> fold crossRung swaps c = corr ! c"
    "2 * length swaps \<le> n * (n - 1)"
    unfolding swaps_def using correctionSwapsOf_spec [OF corrP] by blast+
  have "length swaps \<le> (n * (n - 1)) div 2"
    using sw(3) by simp
  then have fits: "chaosRows + length swaps \<le> rc"
    using bound unfolding chaosRows_def by simp
  from placeCorrections_inv [OF c1(1) e1 fits]
  have p2: "cr = chaosRows + length swaps" "length g2 = rc"
    "\<And>r. r < chaosRows \<Longrightarrow> g2 ! r = g1 ! r"
    "\<And>t. t < length swaps \<Longrightarrow> singleRung (swaps ! t) (g2 ! (chaosRows + t))"
    "\<And>r. chaosRows + length swaps \<le> r \<Longrightarrow> g2 ! r = g1 ! r"
    unfolding g2_def cr_def by simp_all
  have e2: "\<forall>r. cr \<le> r \<and> r < rc \<longrightarrow> emptyRow (g2 ! r)"
    using p2(1,5) e1 by simp
  from fillerLoop_inv [OF p2(2) e2, where rnd = rnd and n = n and k = k1]
  have f3: "length g3 = rc" "\<And>r. r < cr \<Longrightarrow> g3 ! r = g2 ! r"
    "\<And>r. cr \<le> r \<Longrightarrow> r < rc \<Longrightarrow> noAdjacent (g3 ! r)"
    "\<And>c. c < n \<Longrightarrow> fold (stepCol n) (drop cr g3) c = c"
    unfolding g3_def by simp_all
  have cr_le: "cr \<le> rc"
    using p2(1) fits by simp
  have tk3: "take cr g3 = take chaosRows g1 @ take (length swaps) (drop chaosRows g2)"
  proof -
    have "take cr g3 = take cr g2"
      by (simp add: list_eq_iff_nth_eq f3(1,2) p2(2))
    also have "\<dots> = take chaosRows g2 @ take (length swaps) (drop chaosRows g2)"
      unfolding p2(1) by (rule take_add)
    also have "take chaosRows g2 = take chaosRows g1"
      by (simp add: list_eq_iff_nth_eq p2(2,3) c1(1))
    finally show ?thesis .
  qed
  have singles: "list_all2 singleRung swaps (take (length swaps) (drop chaosRows g2))"
    unfolding list_all2_conv_all_nth using fits p2(2,4) by simp
  have sim: "fold (stepCol n) g3 s = T ! s" if s: "s < n" for s
  proof -
    have Ps: "P ! s < n"
      using P s by (rule isPerm_nth_less)
    have "fold (stepCol n) g3 s = fold (stepCol n) (drop cr g3) (fold (stepCol n) (take cr g3) s)"
      by (rule fold_stepCol_split)
    also have "\<dots> = fold (stepCol n) (take cr g3) s"
      using s by (intro f3(4)) (simp add: fold_stepCol_less)
    also have "\<dots> = fold (stepCol n) (take (length swaps) (drop chaosRows g2))
                        (fold (stepCol n) (take chaosRows g1) s)"
      unfolding tk3 by simp
    also have "fold (stepCol n) (take chaosRows g1) s = P ! s"
      unfolding P_def using s by (simp add: nth_simulatePermutation)
    also have "fold (stepCol n) (take (length swaps) (drop chaosRows g2)) (P ! s)
        = fold crossRung swaps (P ! s)"
      using singles sw(1) by (rule fold_stepCol_singles)
    also have "\<dots> = corr ! (P ! s)"
      using Ps by (rule sw(2))
    also have "\<dots> = T ! (inverseOf P n ! (P ! s))"
      unfolding corr_def using Ps by (rule correctionOf_spec(2))
    also have "\<dots> = T ! s"
      using inverseOf_spec(2) [OF P s] by simp
    finally show ?thesis .
  qed
  have simT: "simulatePermutation g3 n = T"
    by (simp add: list_eq_iff_nth_eq lenT nth_simulatePermutation sim)
  have na: "noAdjacent (g3 ! r)" if r: "r < rc" for r
  proof -
    consider "r < chaosRows" | "chaosRows \<le> r" "r < cr" | "cr \<le> r"
      by linarith
    then show ?thesis
    proof cases
      case 1
      then have "g3 ! r = g1 ! r"
        using f3(2) [of r] p2(1,3) by simp
      then show ?thesis using c1(2) 1 by simp
    next
      case 2
      then obtain t where t: "r = chaosRows + t" "t < length swaps"
        using p2(1) by (metis add_diff_inverse_nat nat_add_left_cancel_less not_less)
      then have "singleRung (swaps ! t) (g3 ! r)"
        using f3(2) [of r] 2 p2(4) by simp
      then show ?thesis by (rule singleRung_noAdjacent)
    next
      case 3
      then show ?thesis using f3(3) r by simp
    qed
  qed
  have "\<forall>row\<in>set g3. noAdjacent row"
    using na f3(1) by (auto simp: in_set_conv_nth)
  with res f3(1) simT show ?thesis by blast
qed

lemma validRandom_constRandom: "0 \<le> r \<Longrightarrow> r < 1 \<Longrightarrow> validRandom (constRandom r)"
  by (simp add: validRandom_def constRandom_def)

lemma length_derangementLoop: "length (fst (derangementLoop rnd i arr k)) = length arr"
  by (induction i arbitrary: arr k) (simp_all add: Let_def)

lemma length_generateDerangement: "length (fst (generateDerangement rnd n k)) = n"
  by (simp add: generateDerangement_def length_derangementLoop)

lemma permutationToRungs_returns:
  "permutationToRungs rnd T rc k = Inl RangeError \<and> T = [] \<and> 0 < rc \<or>
   (\<exists>g k'. permutationToRungs rnd T rc k = Inr (g, k')) \<and> \<not> (T = [] \<and> 0 < rc)"
  by (cases "T = [] \<and> 0 < rc") (auto simp: permutationToRungs_def Let_def split_beta)

lemma rowCount_bound:
  fixes n :: nat
  assumes "rc = max 12 (n * n)"
  shows "(n * (n - 1)) div 2 + max (rc div 2) (rc - ((n * (n - 1)) div 2 + 2)) \<le> rc"
proof -
  define M where "M = (n * (n - 1)) div 2"
  have "n * (n - 1) \<le> n * n"
    by simp
  then have "2 * M \<le> n * n"
    unfolding M_def by linarith
  moreover have "n * n \<le> rc"
    using assms by simp
  ultimately have "2 * M \<le> rc"
    by linarith
  then have "M + max (rc div 2) (rc - (M + 2)) \<le> rc"
    by (simp add: max_def) linarith
  then show ?thesis
    unfolding M_def .
qed

lemma nat_max_square:
  assumes "0 \<le> p"
  shows "nat (max 12 (p * p)) = max 12 (nat p * nat p)"
proof -
  have sq: "nat (p * p) = nat p * nat p"
    using assms by (simp add: nat_mult_distrib)
  have nn: "0 \<le> p * p"
    by simp
  show ?thesis
  proof (cases "12 \<le> p * p")
    case True
    then have "(12::nat) \<le> nat (p * p)"
      by linarith
    moreover have "max 12 (p * p) = p * p"
      using True by simp
    ultimately show ?thesis
      unfolding sq [symmetric] by simp
  next
    case False
    then have "nat (p * p) < 12"
      using nn by linarith
    moreover have "max 12 (p * p) = 12"
      using False by simp
    ultimately show ?thesis
      unfolding sq [symmetric] by simp
  qed
qed

lemma generateLadder_excludeSelf:
  assumes "validRandom rnd" "2 \<le> playerCount cfg" "excludeSelf cfg"
  shows "\<exists>g k'. generateLadder rnd cfg k
             = Inr (\<lparr>rungs = g, rowCount = nat (max 12 (playerCount cfg * playerCount cfg))\<rparr>, k') \<and>
           length g = nat (max 12 (playerCount cfg * playerCount cfg)) \<and>
           simulatePermutation g (nat (playerCount cfg))
             = fst (generateDerangement rnd (nat (playerCount cfg)) k) \<and>
           (\<forall>row\<in>set g. noAdjacent row)"
proof -
  define n where "n = nat (playerCount cfg)"
  define rc where "rc = nat (max 12 (playerCount cfg * playerCount cfg))"
  define T where "T = fst (generateDerangement rnd n k)"
  define k1 where "k1 = snd (generateDerangement rnd n k)"
  have n: "0 < n"
    using assms(2) by (simp add: n_def)
  have T: "isPerm T n"
    unfolding isPerm_def T_def by (rule generateDerangement_mset [OF assms(1)])
  have "rc = max 12 (n * n)"
    unfolding rc_def n_def using assms(2) by (intro nat_max_square) simp
  then have bound: "(n * (n - 1)) div 2 + max (rc div 2) (rc - ((n * (n - 1)) div 2 + 2)) \<le> rc"
    by (rule rowCount_bound)
  from permutationToRungs_correct [OF T n bound, of rnd k1]
  obtain g k' where g: "permutationToRungs rnd T rc k1 = Inr (g, k')" "length g = rc"
    "simulatePermutation g n = T" "\<forall>row\<in>set g. noAdjacent row"
    by blast
  have "generateLadder rnd cfg k = Inr (\<lparr>rungs = g, rowCount = rc\<rparr>, k')"
    using assms(3) g(1)
    by (simp add: generateLadder_def Let_def split_beta n_def [symmetric] rc_def [symmetric]
        T_def [symmetric] k1_def [symmetric])
  with g(2,3,4) show ?thesis
    unfolding rc_def n_def T_def by blast
qed

lemma generateLadder_unconstrained:
  assumes "\<not> excludeSelf cfg"
  shows "\<exists>g k'. generateLadder rnd cfg k
             = Inr (\<lparr>rungs = g, rowCount = nat (max 12 (playerCount cfg * 4))\<rparr>, k') \<and>
           length g = nat (max 12 (playerCount cfg * 4)) \<and>
           (\<forall>row\<in>set g. noAdjacent row)"
proof -
  define m where "m = nat (playerCount cfg - 1)"
  define rc where "rc = nat (max 12 (playerCount cfg * 4))"
  define addRow where "addRow = (\<lambda>(row::nat) (g, k). let (rowRungs, k') = randomRow rnd m k
                                     in (g @ [rowRungs], k'))"
  define st where "st = fold addRow [0..<rc] ([], k)"
  have inv: "length (fst st) = rc" "\<forall>row\<in>set (fst st). noAdjacent row"
    using unconstrained_rows_inv [of rnd m rc k] unfolding st_def addRow_def by simp_all
  have "generateLadder rnd cfg k = Inr (\<lparr>rungs = fst st, rowCount = rc\<rparr>, snd st)"
    using assms
    by (simp add: generateLadder_def Let_def split_beta st_def addRow_def m_def rc_def)
  with inv show ?thesis
    unfolding rc_def by blast
qed

lemma generateLadder_layout:
  assumes "validRandom rnd" "2 \<le> playerCount cfg"
  shows "\<exists>ld k'. generateLadder rnd cfg k = Inr (ld, k') \<and> rowCount ld = length (rungs ld) \<and>
           (\<forall>row\<in>set (rungs ld). noAdjacent row)"
proof (cases "excludeSelf cfg")
  case True
  from generateLadder_excludeSelf [OF assms True, of k]
  obtain g k' where "generateLadder rnd cfg k
             = Inr (\<lparr>rungs = g, rowCount = nat (max 12 (playerCount cfg * playerCount cfg))\<rparr>, k')"
    "length g = nat (max 12 (playerCount cfg * playerCount cfg))" "\<forall>row\<in>set g. noAdjacent row"
    by blast
  then show ?thesis by simp
next
  case False
  from generateLadder_unconstrained [OF False, of rnd k]
  obtain g k' where "generateLadder rnd cfg k
             = Inr (\<lparr>rungs = g, rowCount = nat (max 12 (playerCount cfg * 4))\<rparr>, k')"
    "length g = nat (max 12 (playerCount cfg * 4))" "\<forall>row\<in>set g. noAdjacent row"
    by blast
  then show ?thesis by simp
qed


lemma generateDerangement_isValid:
  assumes "validRandom rnd" "2 \<le> n"
  shows "isValidDerangement (fst (generateDerangement rnd n k))"
  unfolding isValidDerangement_def list_all_iff length_generateDerangement
  using generateDerangement_no_fixed_point [OF assms] by simp

text \<open>
  C1: for \<open>playerCount \<ge> 2\<close> and every sequence of random values,
  \<open>generateLadder\<close> with \<open>excludeSelf\<close> returns a layout whose column mapping,
  computed by \<open>computeAllResults\<close>, is exactly the derangement that
  \<open>generateDerangement\<close> drew (the first draws of the call); so no column maps to
  itself.
\<close>

theorem generateLadder_realizes_derangement:
  assumes "validRandom rnd" "2 \<le> playerCount cfg" "excludeSelf cfg"
  shows "\<exists>ld k'. generateLadder rnd cfg k = Inr (ld, k') \<and>
           computeAllResults ld (nat (playerCount cfg))
             = Inr (fst (generateDerangement rnd (nat (playerCount cfg)) k)) \<and>
           isValidDerangement (fst (generateDerangement rnd (nat (playerCount cfg)) k))"
proof -
  from generateLadder_excludeSelf [OF assms, of k]
  obtain g k' where g: "generateLadder rnd cfg k
             = Inr (\<lparr>rungs = g, rowCount = nat (max 12 (playerCount cfg * playerCount cfg))\<rparr>, k')"
    "length g = nat (max 12 (playerCount cfg * playerCount cfg))"
    "simulatePermutation g (nat (playerCount cfg))
       = fst (generateDerangement rnd (nat (playerCount cfg)) k)"
    by blast
  have "computeAllResults \<lparr>rungs = g, rowCount = nat (max 12 (playerCount cfg * playerCount cfg))\<rparr>
            (nat (playerCount cfg))
          = Inr (fst (generateDerangement rnd (nat (playerCount cfg)) k))"
    using g(2,3) by (simp add: computeAllResults_simulate)
  moreover have "isValidDerangement (fst (generateDerangement rnd (nat (playerCount cfg)) k))"
    using assms(1,2) by (intro generateDerangement_isValid) simp_all
  ultimately show ?thesis
    using g(1) by blast
qed

theorem generateLadder_realizes_derangement_witness:
  "\<exists>ld k'. generateLadder (constRandom (1 / 2)) \<lparr>playerCount = 3, excludeSelf = True\<rparr> 0 = Inr (ld, k') \<and>
     computeAllResults ld 3 = Inr (fst (generateDerangement (constRandom (1 / 2)) 3 0)) \<and>
     isValidDerangement (fst (generateDerangement (constRandom (1 / 2)) 3 0))"
  using generateLadder_realizes_derangement
    [of "constRandom (1 / 2)" "\<lparr>playerCount = 3, excludeSelf = True\<rparr>" 0]
  by (simp add: validRandom_constRandom)

text \<open>
  C3: for \<open>playerCount \<ge> 2\<close>, both values of \<open>excludeSelf\<close> and every sequence of
  random values, \<open>generateLadder\<close> returns a grid that satisfies
  \<open>hasNoAdjacentRungs\<close>.
\<close>

theorem generateLadder_no_adjacent_rungs:
  assumes "validRandom rnd" "2 \<le> playerCount cfg"
  shows "\<exists>ld k'. generateLadder rnd cfg k = Inr (ld, k') \<and> hasNoAdjacentRungs (rungs ld)"
  using generateLadder_layout [OF assms, of k] unfolding hasNoAdjacentRungs_iff by blast

theorem generateLadder_no_adjacent_rungs_witness:
  "\<exists>ld k'. generateLadder (constRandom (1 / 2)) \<lparr>playerCount = 4, excludeSelf = False\<rparr> 0 = Inr (ld, k') \<and>
     hasNoAdjacentRungs (rungs ld)"
  using generateLadder_no_adjacent_rungs
    [of "constRandom (1 / 2)" "\<lparr>playerCount = 4, excludeSelf = False\<rparr>" 0]
  by (simp add: validRandom_constRandom)

text \<open>
  C4: for every layout that \<open>generateLadder\<close> produces with \<open>playerCount = n \<ge> 2\<close>
  (either mode, any random values), \<open>computeAllResults\<close> returns an array of length
  \<open>n\<close> that contains each of \<open>0..n-1\<close> exactly once.
\<close>

theorem computeAllResults_bijection:
  assumes "validRandom rnd" "2 \<le> playerCount cfg"
  shows "\<exists>ld k' res. generateLadder rnd cfg k = Inr (ld, k') \<and>
           computeAllResults ld (nat (playerCount cfg)) = Inr res \<and>
           length res = nat (playerCount cfg) \<and>
           containsEachOnce res (nat (playerCount cfg))"
proof -
  from generateLadder_layout [OF assms, of k]
  obtain ld k' where ld: "generateLadder rnd cfg k = Inr (ld, k')"
    "rowCount ld = length (rungs ld)" "\<forall>row\<in>set (rungs ld). noAdjacent row"
    by blast
  define res where "res = simulatePermutation (rungs ld) (nat (playerCount cfg))"
  have "computeAllResults ld (nat (playerCount cfg)) = Inr res"
    unfolding res_def using ld(2) by (rule computeAllResults_simulate)
  moreover have "isPerm res (nat (playerCount cfg))"
    unfolding res_def using ld(3) by (rule simulatePermutation_isPerm)
  ultimately show ?thesis
    using ld(1) isPerm_length isPerm_containsEachOnce by blast
qed

theorem computeAllResults_bijection_witness:
  "\<exists>ld k' res. generateLadder (constRandom (3 / 4)) \<lparr>playerCount = 3, excludeSelf = False\<rparr> 0 = Inr (ld, k') \<and>
     computeAllResults ld 3 = Inr res \<and> length res = 3 \<and> containsEachOnce res 3"
  using computeAllResults_bijection
    [of "constRandom (3 / 4)" "\<lparr>playerCount = 3, excludeSelf = False\<rparr>" 0]
  by (simp add: validRandom_constRandom)

section \<open>Row count and invalid player counts\<close>

lemma generateLadder_rowCount_of_result:
  assumes "generateLadder rnd cfg k = Inr (ld, k')"
  shows "int (rowCount ld) = (if excludeSelf cfg then max 12 (playerCount cfg * playerCount cfg)
                              else max 12 (playerCount cfg * 4))"
proof (cases "excludeSelf cfg")
  case True
  then have "rowCount ld = nat (max 12 (playerCount cfg * playerCount cfg))"
    using assms
    by (auto simp: generateLadder_def Let_def split_beta split: sum.splits)
  then show ?thesis
    using True by simp
next
  case False
  then have "rowCount ld = nat (max 12 (playerCount cfg * 4))"
    using assms by (auto simp: generateLadder_def Let_def split_beta)
  then show ?thesis
    using False by simp
qed

lemma generateLadder_returns:
  assumes "1 \<le> playerCount cfg \<or> \<not> excludeSelf cfg"
  shows "\<exists>ld k'. generateLadder rnd cfg k = Inr (ld, k')"
proof (cases "excludeSelf cfg")
  case False
  then show ?thesis
    using generateLadder_unconstrained [of cfg rnd k] by blast
next
  case True
  then have p: "1 \<le> playerCount cfg"
    using assms by simp
  define T where "T = fst (generateDerangement rnd (nat (playerCount cfg)) k)"
  define k1 where "k1 = snd (generateDerangement rnd (nat (playerCount cfg)) k)"
  define rc where "rc = nat (max 12 (playerCount cfg * playerCount cfg))"
  have "length T = nat (playerCount cfg)"
    unfolding T_def by (rule length_generateDerangement)
  then have "T \<noteq> []"
    using p by auto
  then obtain g k' where "permutationToRungs rnd T rc k1 = Inr (g, k')"
    using permutationToRungs_returns [of rnd T rc k1] by blast
  then have "generateLadder rnd cfg k = Inr (\<lparr>rungs = g, rowCount = rc\<rparr>, k')"
    using True
    by (simp add: generateLadder_def Let_def split_beta T_def [symmetric] k1_def [symmetric]
        rc_def [symmetric])
  then show ?thesis by blast
qed

lemma generateLadder_RangeError:
  assumes "excludeSelf cfg" "playerCount cfg \<le> 0"
  shows "generateLadder rnd cfg k = Inl RangeError"
proof -
  have "nat (playerCount cfg) = 0"
    using assms(2) by simp
  then have T: "generateDerangement rnd (nat (playerCount cfg)) k = ([], k)"
    by (simp add: generateDerangement_def)
  have "0 < nat (max 12 (playerCount cfg * playerCount cfg))"
    by simp
  then have "permutationToRungs rnd [] (nat (max 12 (playerCount cfg * playerCount cfg))) k
      = Inl RangeError"
    using permutationToRungs_returns [of rnd "[]" "nat (max 12 (playerCount cfg * playerCount cfg))" k]
    by auto
  then show ?thesis
    using assms(1) T by (simp add: generateLadder_def Let_def)
qed

text \<open>
  C6: whenever \<open>generateLadder\<close> returns a layout, for any player count, its
  \<open>rowCount\<close> is \<open>max(12, playerCount * 4)\<close> without \<open>excludeSelf\<close> and
  \<open>max(12, playerCount * playerCount)\<close> with it, hence at least 12; and it does
  return a layout for every player count when \<open>excludeSelf\<close> is false and for every
  \<open>playerCount \<ge> 1\<close> when it is true.  In particular \<open>rowCount = 16\<close> for four
  players without \<open>excludeSelf\<close> and \<open>rowCount = 25\<close> for five players with it.
\<close>

theorem generateLadder_rowCount:
  "(generateLadder rnd cfg k = Inr (ld, k') \<longrightarrow>
      int (rowCount ld) = (if excludeSelf cfg then max 12 (playerCount cfg * playerCount cfg)
                           else max 12 (playerCount cfg * 4)) \<and>
      12 \<le> rowCount ld) \<and>
   (1 \<le> playerCount cfg \<or> \<not> excludeSelf cfg \<longrightarrow> (\<exists>ld k'. generateLadder rnd cfg k = Inr (ld, k'))) \<and>
   (\<exists>ld k'. generateLadder rnd \<lparr>playerCount = 4, excludeSelf = False\<rparr> k = Inr (ld, k') \<and>
      rowCount ld = 16) \<and>
   (\<exists>ld k'. generateLadder rnd \<lparr>playerCount = 5, excludeSelf = True\<rparr> k = Inr (ld, k') \<and>
      rowCount ld = 25)"
proof -
  have A: "int (rowCount ld) = (if excludeSelf cfg then max 12 (playerCount cfg * playerCount cfg)
                           else max 12 (playerCount cfg * 4)) \<and> 12 \<le> rowCount ld"
    if r: "generateLadder rnd cfg k = Inr (ld, k')"
  proof -
    have eq: "int (rowCount ld) = (if excludeSelf cfg then max 12 (playerCount cfg * playerCount cfg)
                           else max 12 (playerCount cfg * 4))"
      using r by (rule generateLadder_rowCount_of_result)
    then have "12 \<le> int (rowCount ld)"
      by (simp split: if_splits)
    then show ?thesis
      using eq by simp
  qed
  have B: "1 \<le> playerCount cfg \<or> \<not> excludeSelf cfg \<Longrightarrow> \<exists>ld k'. generateLadder rnd cfg k = Inr (ld, k')"
    by (rule generateLadder_returns)
  have C: "\<exists>ld k'. generateLadder rnd \<lparr>playerCount = 4, excludeSelf = False\<rparr> k = Inr (ld, k') \<and>
      rowCount ld = 16"
  proof -
    obtain ld k' where r: "generateLadder rnd \<lparr>playerCount = 4, excludeSelf = False\<rparr> k = Inr (ld, k')"
      using generateLadder_returns [of "\<lparr>playerCount = 4, excludeSelf = False\<rparr>" rnd k] by auto
    from generateLadder_rowCount_of_result [OF r] have "rowCount ld = 16"
      by simp
    with r show ?thesis by blast
  qed
  have D: "\<exists>ld k'. generateLadder rnd \<lparr>playerCount = 5, excludeSelf = True\<rparr> k = Inr (ld, k') \<and>
      rowCount ld = 25"
  proof -
    obtain ld k' where r: "generateLadder rnd \<lparr>playerCount = 5, excludeSelf = True\<rparr> k = Inr (ld, k')"
      using generateLadder_returns [of "\<lparr>playerCount = 5, excludeSelf = True\<rparr>" rnd k] by auto
    from generateLadder_rowCount_of_result [OF r] have "rowCount ld = 25"
      by simp
    with r show ?thesis by blast
  qed
  from A B C D show ?thesis by blast
qed

theorem generateLadder_rowCount_witness:
  "\<exists>ld k'. generateLadder (constRandom (1 / 2)) \<lparr>playerCount = 6, excludeSelf = True\<rparr> 0 = Inr (ld, k') \<and>
     rowCount ld = 36"
proof -
  obtain ld k' where r: "generateLadder (constRandom (1 / 2)) \<lparr>playerCount = 6, excludeSelf = True\<rparr> 0
      = Inr (ld, k')"
    using generateLadder_rowCount
      [of "constRandom (1 / 2)" "\<lparr>playerCount = 6, excludeSelf = True\<rparr>" 0 undefined undefined]
    by auto
  then have "rowCount ld = 36"
    using generateLadder_rowCount
      [of "constRandom (1 / 2)" "\<lparr>playerCount = 6, excludeSelf = True\<rparr>" 0 ld k']
    by simp
  with r show ?thesis by blast
qed

lemma fold_slotless_rows:
  "fold (\<lambda>(row::nat) (g, k). let (rowRungs, k') = randomRow rnd 0 k in (g @ [rowRungs], k'))
      [0..<m] (g0, k) = (g0 @ replicate m [], k)"
proof (induction m)
  case 0
  show ?case by simp
next
  case (Suc m)
  then show ?case
    by (simp add: randomRow_def replicate_append_same)
qed

text \<open>
  C2 as the code has it: \<open>generateLadder\<close> validates nothing and has no
  InvalidConfiguration error.  For \<open>playerCount < 2\<close>: without \<open>excludeSelf\<close> it
  returns the layout of 12 rows that have no slot, drawing no random value; with
  \<open>excludeSelf\<close> and \<open>playerCount = 1\<close> it returns a layout of 12 rows; with
  \<open>excludeSelf\<close> and \<open>playerCount \<le> 0\<close> the allocation \<^verbatim>\<open>Array(n - 1)\<close> raises a
  \<^verbatim>\<open>RangeError\<close>.
\<close>

theorem generateLadder_without_validation:
  assumes "playerCount cfg < 2"
  shows "(\<not> excludeSelf cfg \<longrightarrow>
            generateLadder rnd cfg k = Inr (\<lparr>rungs = replicate 12 [], rowCount = 12\<rparr>, k)) \<and>
         (excludeSelf cfg \<and> playerCount cfg = 1 \<longrightarrow>
            (\<exists>ld k'. generateLadder rnd cfg k = Inr (ld, k') \<and> rowCount ld = 12)) \<and>
         (excludeSelf cfg \<and> playerCount cfg \<le> 0 \<longrightarrow> generateLadder rnd cfg k = Inl RangeError)"
proof -
  have A: "generateLadder rnd cfg k = Inr (\<lparr>rungs = replicate 12 [], rowCount = 12\<rparr>, k)"
    if e: "\<not> excludeSelf cfg"
  proof -
    have m: "nat (playerCount cfg - 1) = 0"
      using assms by simp
    have rc: "nat (max 12 (playerCount cfg * 4)) = 12"
      using assms by simp
    show ?thesis
      using e by (simp add: generateLadder_def Let_def m rc fold_slotless_rows [unfolded Let_def])
  qed
  have B: "\<exists>ld k'. generateLadder rnd cfg k = Inr (ld, k') \<and> rowCount ld = 12"
    if e: "excludeSelf cfg \<and> playerCount cfg = 1"
  proof -
    obtain ld k' where r: "generateLadder rnd cfg k = Inr (ld, k')"
      using generateLadder_returns [of cfg rnd k] e by auto
    from generateLadder_rowCount_of_result [OF r] e have "rowCount ld = 12"
      by simp
    with r show ?thesis by blast
  qed
  have C: "generateLadder rnd cfg k = Inl RangeError"
    if "excludeSelf cfg \<and> playerCount cfg \<le> 0"
    using that by (intro generateLadder_RangeError) simp_all
  from A B C show ?thesis by blast
qed

theorem generateLadder_without_validation_witness:
  "generateLadder (constRandom 0) \<lparr>playerCount = 0, excludeSelf = True\<rparr> 0 = Inl RangeError"
  using generateLadder_without_validation
    [of "\<lparr>playerCount = 0, excludeSelf = True\<rparr>" "constRandom 0" 0]
  by simp

text \<open>
  C2 as stated fails: one player without \<open>excludeSelf\<close> is accepted, and a layout is
  returned.
\<close>

theorem generateLadder_one_player_counterexample:
  "generateLadder (constRandom 0) \<lparr>playerCount = 1, excludeSelf = False\<rparr> 0
     = Inr (\<lparr>rungs = [[], [], [], [], [], [], [], [], [], [], [], []], rowCount = 12\<rparr>, 0)"
  by code_simp

section \<open>Binary64 operations that are exact\<close>

lemma roundHalfEven_of_int: "roundHalfEven (of_int k) = k"
  by (simp add: roundHalfEven_def)

lemma fl_dyadic:
  fixes k :: int and n :: nat
  assumes k: "\<bar>k\<bar> < 2 ^ 53" and n: "n \<le> 1074"
  shows "fl (of_int k / 2 ^ n) = Finite (of_int k / 2 ^ n)"
proof (cases "k = 0")
  case True
  then show ?thesis by (simp add: fl_def)
next
  case False
  define v :: real where "v = of_int k / 2 ^ n"
  have v0: "v \<noteq> 0"
    using False by (simp add: v_def)
  have "\<bar>real_of_int k\<bar> < 2 ^ 53"
    using k by (metis of_int_abs of_int_less_numeral_power_cancel_iff)
  then have absv: "\<bar>v\<bar> < 2 ^ 53 / 2 ^ n"
    by (simp add: v_def abs_divide divide_strict_right_mono)
  have "(2::real) ^ 53 / 2 ^ n = 2 powr (53 - real n)"
    by (simp add: powr_diff powr_realpow flip: powr_numeral)
  then have "\<bar>v\<bar> < 2 powr (real_of_int (53 - int n))"
    using absv by simp
  then have "log 2 \<bar>v\<bar> < real_of_int (53 - int n)"
    using v0 by (simp add: log_less_iff)
  then have e: "\<lfloor>log 2 \<bar>v\<bar>\<rfloor> < 53 - int n"
    by (simp only: floor_less_iff)
  define E where "E = binadeExp v - 52"
  have "E \<le> - int n"
    using e n by (simp add: E_def binadeExp_def)
  define m where "m = nat (- int n - E)"
  have E_eq: "E = - int (n + m)"
    using \<open>E \<le> - int n\<close> by (simp add: m_def)
  have u: "2 powr (real_of_int E) = 1 / 2 ^ (n + m)"
    unfolding E_eq by (simp add: powr_minus powr_realpow inverse_eq_divide flip: of_nat_add)
  have q: "v / (1 / 2 ^ (n + m)) = real_of_int (k * 2 ^ m)"
    by (simp add: v_def power_add)
  have r: "real_of_int (roundHalfEven (v / (1 / 2 ^ (n + m)))) * (1 / 2 ^ (n + m)) = v"
    unfolding q roundHalfEven_of_int by (simp add: v_def power_add)
  have small: "\<bar>v\<bar> < 2 ^ 1024"
  proof -
    have "(2::real) ^ 53 / 2 ^ n \<le> 2 ^ 53"
      by (simp add: divide_le_eq_1 field_simps)
    also have "\<dots> < 2 ^ 1024"
      by simp
    finally show ?thesis
      using absv by linarith
  qed
  have "fl v = Finite v"
    unfolding fl_def Let_def E_def [symmetric] u r
    using v0 small by auto
  then show ?thesis
    by (simp add: v_def)
qed

lemma fl_half_int:
  assumes "v = real_of_int k / 2" "\<bar>k\<bar> < 2 ^ 53"
  shows "fl v = Finite v"
  unfolding assms(1) using fl_dyadic [of k 1] assms(2) by simp

lemma product_bound:
  fixes a :: int
  assumes "1 \<le> a" "a \<le> 2 ^ 20" "m \<le> 2 ^ 20"
  shows "0 \<le> int m * a" "int m * a \<le> 2 ^ 40" "0 \<le> a * int m" "a * int m \<le> 2 ^ 40"
proof -
  show nn: "0 \<le> int m * a"
    using assms(1) by simp
  have "int m * a \<le> 2 ^ 20 * 2 ^ 20"
    using assms by (intro mult_mono) simp_all
  then show le: "int m * a \<le> 2 ^ 40"
    by simp
  show "0 \<le> a * int m" "a * int m \<le> 2 ^ 40"
    using nn le by (simp_all add: mult.commute)
qed

lemma getX_exact:
  fixes a :: int
  assumes a: "1 \<le> a" "a \<le> 2 ^ 20" and col: "col \<le> 2 ^ 20"
  shows "getX (Finite (of_int a)) col = Finite (real col * of_int a + of_int a / 2 + 50)"
proof -
  note pb = product_bound [OF a col]
  have 1: "fl (real col * real_of_int a) = Finite (real col * real_of_int a)"
    by (rule fl_half_int [of _ "2 * (int col * a)"]) (use pb in simp_all)
  have 2: "fl (real_of_int a / 2) = Finite (real_of_int a / 2)"
    by (rule fl_half_int [of _ a]) (use a in simp_all)
  have 3: "fl (real col * real_of_int a + real_of_int a / 2)
      = Finite (real col * real_of_int a + real_of_int a / 2)"
    by (rule fl_half_int [of _ "2 * (int col * a) + a"]) (use pb a in \<open>simp_all add: field_simps\<close>)
  have 4: "fl (real col * real_of_int a + real_of_int a / 2 + 50)
      = Finite (real col * real_of_int a + real_of_int a / 2 + 50)"
    by (rule fl_half_int [of _ "2 * (int col * a) + a + 100"])
      (use pb a in \<open>simp_all add: field_simps\<close>)
  show ?thesis
    by (simp add: getX_def 1 2 3 4)
qed

lemma getY_exact:
  fixes b s :: int
  assumes b: "1 \<le> b" "b \<le> 2 ^ 20" and s: "\<bar>s\<bar> \<le> 2 ^ 20" and row: "row \<le> 2 ^ 20"
  shows "getY (Finite (of_int b)) (Finite (of_int s)) row
      = Finite (real row * of_int b + of_int s + of_int b / 2)"
proof -
  note pb = product_bound [OF b row]
  have 1: "fl (real row * real_of_int b) = Finite (real row * real_of_int b)"
    by (rule fl_half_int [of _ "2 * (int row * b)"]) (use pb in simp_all)
  have 2: "fl (real_of_int b / 2) = Finite (real_of_int b / 2)"
    by (rule fl_half_int [of _ b]) (use b in simp_all)
  have 3: "fl (real row * real_of_int b + real_of_int s)
      = Finite (real row * real_of_int b + real_of_int s)"
    by (rule fl_half_int [of _ "2 * (int row * b) + 2 * s"]) (use pb s in \<open>simp_all add: field_simps\<close>)
  have 4: "fl (real row * real_of_int b + real_of_int s + real_of_int b / 2)
      = Finite (real row * real_of_int b + real_of_int s + real_of_int b / 2)"
  proof (rule fl_half_int [of _ "2 * (int row * b) + 2 * s + b"])
    show "real row * real_of_int b + real_of_int s + real_of_int b / 2
        = real_of_int (2 * (int row * b) + 2 * s + b) / 2"
      by (simp add: field_simps)
    show "\<bar>2 * (int row * b) + 2 * s + b\<bar> < 2 ^ 53"
    proof -
      have P: "0 \<le> int row * b" "int row * b \<le> 1099511627776"
        using pb(1,2) by simp_all
      have S: "- 1048576 \<le> s" "s \<le> 1048576" "b \<le> 1048576"
        using s b(2) by simp_all
      have "\<bar>2 * (int row * b) + 2 * s + b\<bar> < 9007199254740992"
        using P S b(1) by linarith
      then show ?thesis by simp
    qed
  qed
  show ?thesis
    by (simp add: getY_def 1 2 3 4)
qed

lemma finalY_exact:
  fixes b s :: int
  assumes b: "1 \<le> b" "b \<le> 2 ^ 20" and s: "\<bar>s\<bar> \<le> 2 ^ 20" and rc: "rc \<le> 2 ^ 20"
  shows "jsAdd (jsMul (Finite (real rc)) (Finite (of_int b))) (Finite (of_int s))
      = Finite (real rc * of_int b + of_int s)"
proof -
  note pb = product_bound [OF b rc]
  have 1: "fl (real rc * real_of_int b) = Finite (real rc * real_of_int b)"
    by (rule fl_half_int [of _ "2 * (int rc * b)"]) (use pb in simp_all)
  have 3: "fl (real rc * real_of_int b + real_of_int s)
      = Finite (real rc * real_of_int b + real_of_int s)"
    by (rule fl_half_int [of _ "2 * (int rc * b) + 2 * s"]) (use pb s in \<open>simp_all add: field_simps\<close>)
  show ?thesis
    by (simp add: 1 3)
qed

section \<open>A sum that rounds away\<close>

lemma fl_absorbed_at_40:
  assumes "0 \<le> d" "d < 1 / 2 ^ 48"
  shows "fl (40 + d) = Finite 40"
proof -
  have d1: "d < 1"
  proof -
    have "(1::real) / 2 ^ 48 < 1" by simp
    with assms(2) show ?thesis by linarith
  qed
  have "\<lfloor>log 2 \<bar>40 + d\<bar>\<rfloor> = 5"
    using assms(1) d1 by (subst floor_log_eq_powr_iff) simp_all
  then have E: "binadeExp (40 + d) - 52 = - 47"
    by (simp add: binadeExp_def)
  have u: "2 powr real_of_int (- 47) = 1 / 2 ^ 47"
    by (simp add: powr_minus inverse_eq_divide flip: powr_numeral)
  define y where "y = (40 + d) / (1 / 2 ^ 47)"
  have y: "y = real_of_int (40 * 2 ^ 47) + d * 2 ^ 47"
    by (simp add: y_def algebra_simps)
  have frac: "0 \<le> d * 2 ^ 47" "d * 2 ^ 47 < 1 / 2"
  proof -
    show "0 \<le> d * 2 ^ 47"
      using assms(1) by simp
    have "d * 2 ^ 47 < 1 / 2 ^ 48 * 2 ^ 47"
      using assms(2) by (intro mult_strict_right_mono) simp_all
    then show "d * 2 ^ 47 < 1 / 2"
      by simp
  qed
  have fy: "\<lfloor>y\<rfloor> = 40 * 2 ^ 47"
    unfolding y using frac by (intro floor_unique) simp_all
  have "roundHalfEven y = 40 * 2 ^ 47"
    unfolding roundHalfEven_def Let_def fy using frac by (simp add: y)
  then have r: "real_of_int (roundHalfEven y) * (1 / 2 ^ 47) = 40"
    by simp
  show ?thesis
    unfolding fl_def Let_def E u y_def [symmetric] r
    using assms(1) by simp
qed

section \<open>The shape of a traced path\<close>

lemma vertical_differs: "isVerticalMove a b \<Longrightarrow> differsInExactlyOne a b"
  by (simp add: isVerticalMove_def differsInExactlyOne_def strictNeq_def)

lemma horizontal_differs: "isHorizontalMove a b \<Longrightarrow> differsInExactlyOne a b"
  by (simp add: isHorizontalMove_def differsInExactlyOne_def strictNeq_def)

lemma vertical_not_horizontal: "isVerticalMove a b \<Longrightarrow> \<not> isHorizontalMove a b"
  by (simp add: isVerticalMove_def isHorizontalMove_def strictNeq_def)

lemma finite_vertical:
  assumes "pt_x p = Finite a" "pt_x q = Finite a" "pt_y p = Finite c" "pt_y q = Finite d" "c \<noteq> d"
  shows "isVerticalMove p q"
  using assms by (simp add: isVerticalMove_def strictEq_def strictNeq_def)

lemma finite_horizontal:
  assumes "pt_y p = Finite c" "pt_y q = Finite c" "pt_x p = Finite a" "pt_x q = Finite b" "a \<noteq> b"
  shows "isHorizontalMove p q"
  using assms by (simp add: isHorizontalMove_def strictEq_def strictNeq_def)

lemma movesAxisAligned_snoc:
  assumes "movesAxisAligned pth" "pth \<noteq> []" "differsInExactlyOne (last pth) q"
  shows "movesAxisAligned (pth @ [q])"
  unfolding movesAxisAligned_def list_all_iff
proof
  fix i assume "i \<in> set [0..<length (pth @ [q]) - 1]"
  then have i: "i < length pth" by simp
  show "differsInExactlyOne ((pth @ [q]) ! i) ((pth @ [q]) ! (i + 1))"
  proof (cases "i + 1 < length pth")
    case True
    then have "i \<in> set [0..<length pth - 1]" by simp
    then have "differsInExactlyOne (pth ! i) (pth ! (i + 1))"
      using assms(1) unfolding movesAxisAligned_def list_all_iff by blast
    then show ?thesis
      using True by (simp add: nth_append)
  next
    case False
    then have eq: "i = length pth - 1" "i + 1 = length pth"
      using i by simp_all
    have "pth ! i = last pth"
      using assms(2) eq(1) by (simp add: last_conv_nth)
    then show ?thesis
      using assms(3) i eq(2) by (simp add: nth_append)
  qed
qed

lemma noConsecutiveHorizontal_snoc:
  assumes "noConsecutiveHorizontal pth" "pth \<noteq> []"
    "\<not> isHorizontalMove (last pth) q \<or>
     (2 \<le> length pth \<and> \<not> isHorizontalMove (pth ! (length pth - 2)) (last pth))"
  shows "noConsecutiveHorizontal (pth @ [q])"
  unfolding noConsecutiveHorizontal_def list_all_iff
proof
  fix i assume "i \<in> set [0..<length (pth @ [q]) - 2]"
  then have i: "i + 1 < length pth" by simp
  show "\<not> (isHorizontalMove ((pth @ [q]) ! i) ((pth @ [q]) ! (i + 1)) \<and>
            isHorizontalMove ((pth @ [q]) ! (i + 1)) ((pth @ [q]) ! (i + 2)))"
  proof (cases "i + 2 < length pth")
    case True
    then have "i \<in> set [0..<length pth - 2]" by simp
    then have "\<not> (isHorizontalMove (pth ! i) (pth ! (i + 1)) \<and>
                  isHorizontalMove (pth ! (i + 1)) (pth ! (i + 2)))"
      using assms(1) unfolding noConsecutiveHorizontal_def list_all_iff by blast
    then show ?thesis
      using True by (simp add: nth_append)
  next
    case False
    then have eq: "i + 2 = length pth"
      using i by simp
    then have idx: "length pth - 1 = i + 1" "length pth - 2 = i"
      by linarith+
    have a: "pth ! (i + 1) = last pth" "pth ! i = pth ! (length pth - 2)"
      unfolding last_conv_nth [OF assms(2)] idx by simp_all
    have b: "(pth @ [q]) ! i = pth ! i" "(pth @ [q]) ! (i + 1) = pth ! (i + 1)"
      "(pth @ [q]) ! (i + 2) = q"
      using i eq by (simp_all add: nth_append)
    show ?thesis
      unfolding b a using assms(3) eq by auto
  qed
qed

text \<open>One row of the tracer appends a vertical move and, at a rung, a horizontal one.\<close>

lemma extend_vertical:
  assumes "pth \<noteq> []" "movesAxisAligned pth" "noConsecutiveHorizontal pth"
    "isVerticalMove (last pth) v"
  shows "movesAxisAligned (pth @ [v])" "noConsecutiveHorizontal (pth @ [v])"
proof -
  show "movesAxisAligned (pth @ [v])"
    using assms(2,1) by (rule movesAxisAligned_snoc) (rule vertical_differs [OF assms(4)])
  show "noConsecutiveHorizontal (pth @ [v])"
    using assms(3,1) by (rule noConsecutiveHorizontal_snoc)
      (rule disjI1, rule vertical_not_horizontal [OF assms(4)])
qed

lemma extend_vertical_horizontal:
  assumes "pth \<noteq> []" "movesAxisAligned pth" "noConsecutiveHorizontal pth"
    "isVerticalMove (last pth) v" "isHorizontalMove v h"
  shows "movesAxisAligned (pth @ [v] @ [h])" "noConsecutiveHorizontal (pth @ [v] @ [h])"
proof -
  have v: "movesAxisAligned (pth @ [v])" "noConsecutiveHorizontal (pth @ [v])"
    using assms(1-4) by (rule extend_vertical)+
  have "movesAxisAligned ((pth @ [v]) @ [h])"
    by (rule movesAxisAligned_snoc) (use v(1) assms(5) in \<open>simp_all add: horizontal_differs\<close>)
  then show "movesAxisAligned (pth @ [v] @ [h])"
    by simp
  have "(pth @ [v]) ! (length (pth @ [v]) - 2) = last pth"
    using assms(1) by (simp add: nth_append last_conv_nth)
  then have "noConsecutiveHorizontal ((pth @ [v]) @ [h])"
    by (intro noConsecutiveHorizontal_snoc [OF v(2)] disjI2)
      (use assms(1,4) in \<open>simp_all add: vertical_not_horizontal Suc_le_eq\<close>)
  then show "noConsecutiveHorizontal (pth @ [v] @ [h])"
    by simp
qed

text \<open>
  The path along the rows still to visit, when the coordinates that the tracer computes
  are the finite values \<open>xr col\<close> and \<open>yr row\<close>, with distinct \<open>x\<close> at adjacent
  columns and \<open>y\<close> increasing with the row.
\<close>

lemma traceRows_path:
  fixes xr yr :: "nat \<Rightarrow> real"
  assumes X: "\<forall>c<n. getX cw c = Finite (xr c)" and Xadj: "\<forall>c. c + 1 < n \<longrightarrow> xr c \<noteq> xr (c + 1)"
    and Yup: "\<forall>r r'. r < r' \<longrightarrow> yr r < yr r'"
  shows "\<forall>r\<in>set rows. r < length g \<and> getY ch sy r = Finite (yr r) \<Longrightarrow> sorted_wrt (<) rows \<Longrightarrow>
     pth \<noteq> [] \<Longrightarrow> col < n \<Longrightarrow> pt_x (last pth) = getX cw col \<Longrightarrow> pt_y (last pth) = Finite yl \<Longrightarrow>
     \<forall>r\<in>set rows. yl < yr r \<Longrightarrow> movesAxisAligned pth \<Longrightarrow> noConsecutiveHorizontal pth \<Longrightarrow>
     \<exists>col' suf. traceRows g n cw ch sy rows col pth = Inr (col', pth @ suf) \<and> col' < n \<and>
        (rows \<noteq> [] \<longrightarrow> suf \<noteq> [] \<and> isVerticalMove (last pth) (hd suf)) \<and>
        pt_x (last (pth @ suf)) = getX cw col' \<and>
        pt_y (last (pth @ suf)) = (if rows = [] then pt_y (last pth) else getY ch sy (last rows)) \<and>
        movesAxisAligned (pth @ suf) \<and> noConsecutiveHorizontal (pth @ suf)"
proof (induction rows arbitrary: col pth yl)
  case Nil
  then show ?case by simp
next
  case (Cons row rows)
  define v where "v = \<lparr>pt_x = getX cw col, pt_y = getY ch sy row\<rparr>"
  have rl: "row < length g" and yrow: "getY ch sy row = Finite (yr row)"
    and rest: "\<forall>r\<in>set rows. r < length g \<and> getY ch sy r = Finite (yr r)"
    using Cons.prems(1) by simp_all
  have srt: "sorted_wrt (<) rows" and lt: "\<forall>r\<in>set rows. row < r"
    using Cons.prems(2) by simp_all
  have xcol: "getX cw col = Finite (xr col)"
    using X Cons.prems(4) by simp
  have ylrow: "yl \<noteq> yr row"
    using Cons.prems(7) by auto
  have vert: "isVerticalMove (last pth) v"
    by (rule finite_vertical [of _ "xr col" _ yl "yr row"])
      (use Cons.prems(5,6) xcol yrow ylrow in \<open>simp_all add: v_def\<close>)
  have above: "\<forall>r\<in>set rows. yr row < yr r"
    using lt Yup by simp
  have lastrow: "(if rows = [] then getY ch sy row else getY ch sy (last rows))
      = getY ch sy (last (row # rows))"
    by simp
  consider (left) "col > 0 \<and> rungAt (g ! row) (col - 1)"
    | (right) "\<not> (col > 0 \<and> rungAt (g ! row) (col - 1))" "col < n - 1 \<and> rungAt (g ! row) col"
    | (stay) "\<not> (col > 0 \<and> rungAt (g ! row) (col - 1))" "\<not> (col < n - 1 \<and> rungAt (g ! row) col)"
    by blast
  then show ?case
  proof cases
    case left
    define h where "h = \<lparr>pt_x = getX cw (col - 1), pt_y = getY ch sy row\<rparr>"
    have step: "traceRows g n cw ch sy (row # rows) col pth
        = traceRows g n cw ch sy rows (col - 1) (pth @ [v] @ [h])"
      using left rl by (simp add: Let_def v_def h_def)
    have cl: "col - 1 < n" "col - 1 + 1 < n"
      using left Cons.prems(4) by simp_all
    have xl: "getX cw (col - 1) = Finite (xr (col - 1))"
      using X cl(1) by simp
    have "xr (col - 1) \<noteq> xr (col - 1 + 1)"
      using Xadj cl(2) by blast
    then have ne: "xr col \<noteq> xr (col - 1)"
      using left by auto
    have hor: "isHorizontalMove v h"
      by (rule finite_horizontal [of _ "yr row" _ "xr col" "xr (col - 1)"])
        (use xcol xl yrow ne in \<open>simp_all add: v_def h_def\<close>)
    have ext: "movesAxisAligned (pth @ [v] @ [h])" "noConsecutiveHorizontal (pth @ [v] @ [h])"
      using Cons.prems(3,8,9) vert hor by (rule extend_vertical_horizontal)+
    have "\<exists>col' suf. traceRows g n cw ch sy rows (col - 1) (pth @ [v] @ [h])
          = Inr (col', (pth @ [v] @ [h]) @ suf) \<and> col' < n \<and>
        (rows \<noteq> [] \<longrightarrow> suf \<noteq> [] \<and> isVerticalMove (last (pth @ [v] @ [h])) (hd suf)) \<and>
        pt_x (last ((pth @ [v] @ [h]) @ suf)) = getX cw col' \<and>
        pt_y (last ((pth @ [v] @ [h]) @ suf))
          = (if rows = [] then pt_y (last (pth @ [v] @ [h])) else getY ch sy (last rows)) \<and>
        movesAxisAligned ((pth @ [v] @ [h]) @ suf) \<and> noConsecutiveHorizontal ((pth @ [v] @ [h]) @ suf)"
      by (rule Cons.IH [OF rest srt _ cl(1) _ _ above ext])
        (use yrow in \<open>simp_all add: h_def\<close>)
    then obtain col' suf where r: "traceRows g n cw ch sy rows (col - 1) (pth @ [v] @ [h])
          = Inr (col', pth @ ([v, h] @ suf))" "col' < n"
        "pt_x (last (pth @ ([v, h] @ suf))) = getX cw col'"
        "pt_y (last (pth @ ([v, h] @ suf)))
          = (if rows = [] then getY ch sy row else getY ch sy (last rows))"
        "movesAxisAligned (pth @ ([v, h] @ suf))" "noConsecutiveHorizontal (pth @ ([v, h] @ suf))"
      by (auto simp: h_def)
    show ?thesis
      apply (rule exI [of _ col'], rule exI [of _ "[v, h] @ suf"])
      unfolding step using r vert unfolding lastrow by simp
  next
    case right
    define h where "h = \<lparr>pt_x = getX cw (col + 1), pt_y = getY ch sy row\<rparr>"
    have step: "traceRows g n cw ch sy (row # rows) col pth
        = traceRows g n cw ch sy rows (col + 1) (pth @ [v] @ [h])"
      using right rl by (auto simp: Let_def v_def h_def)
    have cl: "col + 1 < n"
      using right(2) by linarith
    have xl: "getX cw (col + 1) = Finite (xr (col + 1))"
      using X cl by simp
    have ne: "xr col \<noteq> xr (col + 1)"
      using Xadj cl by blast
    have hor: "isHorizontalMove v h"
      by (rule finite_horizontal [of _ "yr row" _ "xr col" "xr (col + 1)"])
        (use xcol xl yrow ne in \<open>simp_all add: v_def h_def\<close>)
    have ext: "movesAxisAligned (pth @ [v] @ [h])" "noConsecutiveHorizontal (pth @ [v] @ [h])"
      using Cons.prems(3,8,9) vert hor by (rule extend_vertical_horizontal)+
    have "\<exists>col' suf. traceRows g n cw ch sy rows (col + 1) (pth @ [v] @ [h])
          = Inr (col', (pth @ [v] @ [h]) @ suf) \<and> col' < n \<and>
        (rows \<noteq> [] \<longrightarrow> suf \<noteq> [] \<and> isVerticalMove (last (pth @ [v] @ [h])) (hd suf)) \<and>
        pt_x (last ((pth @ [v] @ [h]) @ suf)) = getX cw col' \<and>
        pt_y (last ((pth @ [v] @ [h]) @ suf))
          = (if rows = [] then pt_y (last (pth @ [v] @ [h])) else getY ch sy (last rows)) \<and>
        movesAxisAligned ((pth @ [v] @ [h]) @ suf) \<and> noConsecutiveHorizontal ((pth @ [v] @ [h]) @ suf)"
      by (rule Cons.IH [OF rest srt _ cl _ _ above ext])
        (use yrow in \<open>simp_all add: h_def\<close>)
    then obtain col' suf where r: "traceRows g n cw ch sy rows (col + 1) (pth @ [v] @ [h])
          = Inr (col', pth @ ([v, h] @ suf))" "col' < n"
        "pt_x (last (pth @ ([v, h] @ suf))) = getX cw col'"
        "pt_y (last (pth @ ([v, h] @ suf)))
          = (if rows = [] then getY ch sy row else getY ch sy (last rows))"
        "movesAxisAligned (pth @ ([v, h] @ suf))" "noConsecutiveHorizontal (pth @ ([v, h] @ suf))"
      by (auto simp: h_def)
    show ?thesis
      apply (rule exI [of _ col'], rule exI [of _ "[v, h] @ suf"])
      unfolding step using r vert unfolding lastrow by simp
  next
    case stay
    have step: "traceRows g n cw ch sy (row # rows) col pth
        = traceRows g n cw ch sy rows col (pth @ [v])"
      using stay rl by (auto simp: Let_def v_def)
    have ext: "movesAxisAligned (pth @ [v])" "noConsecutiveHorizontal (pth @ [v])"
      using Cons.prems(3,8,9) vert by (rule extend_vertical)+
    have "\<exists>col' suf. traceRows g n cw ch sy rows col (pth @ [v])
          = Inr (col', (pth @ [v]) @ suf) \<and> col' < n \<and>
        (rows \<noteq> [] \<longrightarrow> suf \<noteq> [] \<and> isVerticalMove (last (pth @ [v])) (hd suf)) \<and>
        pt_x (last ((pth @ [v]) @ suf)) = getX cw col' \<and>
        pt_y (last ((pth @ [v]) @ suf))
          = (if rows = [] then pt_y (last (pth @ [v])) else getY ch sy (last rows)) \<and>
        movesAxisAligned ((pth @ [v]) @ suf) \<and> noConsecutiveHorizontal ((pth @ [v]) @ suf)"
      by (rule Cons.IH [OF rest srt _ Cons.prems(4) _ _ above ext])
        (use yrow in \<open>simp_all add: v_def\<close>)
    then obtain col' suf where r: "traceRows g n cw ch sy rows col (pth @ [v])
          = Inr (col', pth @ ([v] @ suf))" "col' < n"
        "pt_x (last (pth @ ([v] @ suf))) = getX cw col'"
        "pt_y (last (pth @ ([v] @ suf)))
          = (if rows = [] then getY ch sy row else getY ch sy (last rows))"
        "movesAxisAligned (pth @ ([v] @ suf))" "noConsecutiveHorizontal (pth @ ([v] @ suf))"
      by (auto simp: v_def)
    show ?thesis
      apply (rule exI [of _ col'], rule exI [of _ "[v] @ suf"])
      unfolding step using r vert unfolding lastrow by simp
  qed
qed

text \<open>Where no row has a rung the tracer emits one waypoint per row, in the same column.\<close>

lemma traceRows_no_rungs:
  "\<forall>r\<in>set rows. r < length g \<and> emptyRow (g ! r) \<Longrightarrow>
   traceRows g n cw ch sy rows col pth
     = Inr (col, pth @ map (\<lambda>r. \<lparr>pt_x = getX cw col, pt_y = getY ch sy r\<rparr>) rows)"
proof (induction rows arbitrary: pth)
  case Nil
  show ?case by simp
next
  case (Cons row rows)
  then have "row < length g" "\<not> rungAt (g ! row) (col - 1)" "\<not> rungAt (g ! row) col"
    by (simp_all add: emptyRow_def)
  then show ?case
    using Cons by (simp add: Let_def)
qed

section \<open>Traced paths under exact geometry\<close>

lemma traceLadderPath_shape:
  fixes a b s :: int
  assumes a: "1 \<le> a" "a \<le> 2 ^ 20" and b: "1 \<le> b" "b \<le> 2 ^ 20" and s: "\<bar>s\<bar> \<le> 2 ^ 20"
    and n: "n \<le> 2 ^ 20" and col: "startCol < n"
    and rc: "rowCount ld = length (rungs ld)" "0 < rowCount ld" "rowCount ld \<le> 2 ^ 20"
  shows "\<exists>tr. traceLadderPath ld startCol n (Finite (of_int a)) (Finite (of_int b)) (Finite (of_int s))
         = Inr tr \<and>
     hd (path tr) = \<lparr>pt_x = Finite (real startCol * of_int a + of_int a / 2 + 50),
                      pt_y = Finite (of_int s)\<rparr> \<and>
     pt_y (last (path tr)) = Finite (real (rowCount ld) * of_int b + of_int s) \<and>
     movesAxisAligned (path tr) \<and> noConsecutiveHorizontal (path tr) \<and>
     isVerticalMove (path tr ! 0) (path tr ! 1) \<and>
     isVerticalMove (path tr ! (length (path tr) - 2)) (last (path tr))"
proof -
  define cw where "cw = Finite (real_of_int a)"
  define ch where "ch = Finite (real_of_int b)"
  define sy where "sy = Finite (real_of_int s)"
  define xr where "xr = (\<lambda>c. real c * real_of_int a + real_of_int a / 2 + 50)"
  define yr where "yr = (\<lambda>r. real r * real_of_int b + real_of_int s + real_of_int b / 2)"
  define start where "start = \<lparr>pt_x = getX cw startCol, pt_y = sy\<rparr>"
  define rows where "rows = [0..<rowCount ld]"
  have ra: "0 < real_of_int a" and rb: "0 < real_of_int b"
    using a(1) b(1) by simp_all
  have X: "\<forall>c<n. getX cw c = Finite (xr c)"
    unfolding cw_def xr_def using getX_exact [OF a] n by simp
  have Xadj: "\<forall>c. c + 1 < n \<longrightarrow> xr c \<noteq> xr (c + 1)"
    using ra by (simp add: xr_def algebra_simps)
  have Yup: "\<forall>r r'. r < r' \<longrightarrow> yr r < yr r'"
    using rb by (simp add: yr_def)
  have Y: "\<forall>r\<in>set rows. r < length (rungs ld) \<and> getY ch sy r = Finite (yr r)"
    unfolding ch_def sy_def yr_def rows_def using getY_exact [OF b s] rc(1,3) by simp
  have ne: "rows \<noteq> []"
    using rc(2) by (simp add: rows_def)
  have lastrows: "last rows = rowCount ld - 1"
    using rc(2) unfolding rows_def by (simp add: last_upt)
  have below: "\<forall>r\<in>set rows. real_of_int s < yr r"
  proof
    fix r assume "r \<in> set rows"
    have "0 \<le> real r * real_of_int b"
      using rb by simp
    then show "real_of_int s < yr r"
      unfolding yr_def using rb by linarith
  qed
  have "\<exists>col' suf. traceRows (rungs ld) n cw ch sy rows startCol [start] = Inr (col', [start] @ suf) \<and>
        col' < n \<and>
        (rows \<noteq> [] \<longrightarrow> suf \<noteq> [] \<and> isVerticalMove (last [start]) (hd suf)) \<and>
        pt_x (last ([start] @ suf)) = getX cw col' \<and>
        pt_y (last ([start] @ suf)) = (if rows = [] then pt_y (last [start]) else getY ch sy (last rows)) \<and>
        movesAxisAligned ([start] @ suf) \<and> noConsecutiveHorizontal ([start] @ suf)"
    by (rule traceRows_path [OF X Xadj Yup Y _ _ col _ _ below])
      (simp_all add: rows_def start_def sy_def movesAxisAligned_def noConsecutiveHorizontal_def)
  then obtain col' suf where t: "traceRows (rungs ld) n cw ch sy rows startCol [start] = Inr (col', start # suf)"
    and col': "col' < n"
    and suf: "suf \<noteq> []" "isVerticalMove start (hd suf)"
    and lst: "pt_x (last (start # suf)) = getX cw col'"
      "pt_y (last (start # suf)) = getY ch sy (rowCount ld - 1)"
    and ok: "movesAxisAligned (start # suf)" "noConsecutiveHorizontal (start # suf)"
    using ne lastrows by auto
  define final where "final = \<lparr>pt_x = getX cw col',
                                 pt_y = jsAdd (jsMul (Finite (real (rowCount ld))) ch) sy\<rparr>"
  define tr where "tr = \<lparr>path = (start # suf) @ [final], finalColumn = col'\<rparr>"
  have res: "traceLadderPath ld startCol n cw ch sy = Inr tr"
    using t by (simp add: traceLadderPath_def rows_def [symmetric] start_def [symmetric] tr_def final_def)
  have fy: "pt_y final = Finite (real (rowCount ld) * real_of_int b + real_of_int s)"
    unfolding final_def ch_def sy_def using finalY_exact [OF b s rc(3)] by simp
  have ly: "pt_y (last (start # suf)) = Finite (yr (rowCount ld - 1))"
    unfolding lst(2) using Y ne lastrows by (metis last_in_set)
  have "real (rowCount ld - 1) = real (rowCount ld) - 1"
    using rc(2) by (simp add: of_nat_diff)
  then have "yr (rowCount ld - 1)
      = real (rowCount ld) * real_of_int b + real_of_int s - real_of_int b / 2"
    by (simp add: yr_def algebra_simps)
  then have ydiff: "yr (rowCount ld - 1) \<noteq> real (rowCount ld) * real_of_int b + real_of_int s"
    using rb by simp
  have lx: "pt_x (last (start # suf)) = Finite (xr col')"
    unfolding lst(1) using X col' by simp
  have fx: "pt_x final = Finite (xr col')"
    unfolding final_def using X col' by simp
  have vlast: "isVerticalMove (last (start # suf)) final"
    using lx fx ly fy ydiff by (rule finite_vertical)
  have A: "movesAxisAligned ((start # suf) @ [final])"
    by (rule movesAxisAligned_snoc [OF ok(1)]) (use vlast in \<open>simp_all add: vertical_differs\<close>)
  have B: "noConsecutiveHorizontal ((start # suf) @ [final])"
    by (rule noConsecutiveHorizontal_snoc [OF ok(2)])
      (use vlast in \<open>simp_all add: vertical_not_horizontal\<close>)
  have C: "isVerticalMove (((start # suf) @ [final]) ! 0) (((start # suf) @ [final]) ! 1)"
    using suf by (cases suf) simp_all
  have "((start # suf) @ [final]) ! (length ((start # suf) @ [final]) - 2) = last (start # suf)"
    by (simp add: nth_append last_conv_nth)
  then have D: "isVerticalMove (((start # suf) @ [final]) ! (length ((start # suf) @ [final]) - 2))
      (last ((start # suf) @ [final]))"
    using vlast by simp
  have "start = \<lparr>pt_x = Finite (real startCol * real_of_int a + real_of_int a / 2 + 50),
                   pt_y = Finite (real_of_int s)\<rparr>"
    unfolding start_def sy_def using X col by (simp add: xr_def)
  then have "hd (path tr) = \<lparr>pt_x = Finite (real startCol * real_of_int a + real_of_int a / 2 + 50),
                   pt_y = Finite (real_of_int s)\<rparr>"
    by (simp add: tr_def)
  moreover have "pt_y (last (path tr)) = Finite (real (rowCount ld) * real_of_int b + real_of_int s)"
    using fy by (simp add: tr_def)
  moreover have "movesAxisAligned (path tr)" "noConsecutiveHorizontal (path tr)"
    "isVerticalMove (path tr ! 0) (path tr ! 1)"
    "isVerticalMove (path tr ! (length (path tr) - 2)) (last (path tr))"
    using A B C D by (simp_all add: tr_def)
  ultimately show ?thesis
    using res unfolding cw_def ch_def sy_def by blast
qed

lemma generateLadder_layout_rows:
  assumes "validRandom rnd" "2 \<le> playerCount cfg" "playerCount cfg \<le> 1024"
  shows "\<exists>ld k'. generateLadder rnd cfg k = Inr (ld, k') \<and> rowCount ld = length (rungs ld) \<and>
           0 < rowCount ld \<and> rowCount ld \<le> 2 ^ 20"
proof -
  from generateLadder_layout [OF assms(1,2), of k]
  obtain ld k' where ld: "generateLadder rnd cfg k = Inr (ld, k')"
    "rowCount ld = length (rungs ld)"
    by blast
  have sq: "playerCount cfg * playerCount cfg \<le> 1024 * 1024"
    using assms(2,3) by (intro mult_mono) simp_all
  have eq: "int (rowCount ld) = (if excludeSelf cfg then max 12 (playerCount cfg * playerCount cfg)
                              else max 12 (playerCount cfg * 4))"
    using ld(1) by (rule generateLadder_rowCount_of_result)
  have "12 \<le> int (rowCount ld)"
    using eq by (simp split: if_splits)
  moreover have "int (rowCount ld) \<le> 1048576"
    using eq sq assms(3) by (simp split: if_splits)
  ultimately have "0 < rowCount ld" "rowCount ld \<le> 2 ^ 20"
    by simp_all
  with ld show ?thesis by blast
qed


text \<open>
  C8 as the code has it: for every generated layout (\<open>2 \<le> playerCount \<le> 1024\<close>), every
  start column below \<open>playerCount\<close> and every geometry whose \<open>cellWidth\<close>,
  \<open>cellHeight\<close> and \<open>startY\<close> are integers with \<open>1 \<le> cellWidth, cellHeight \<le> 2^20\<close>
  and \<open>|startY| \<le> 2^20\<close> (every operation of \<open>getX\<close> and \<open>getY\<close> is then exact in
  binary64), the trace succeeds; its first waypoint is
  \<open>(startCol * cellWidth + cellWidth / 2 + 50, startY)\<close>, its last waypoint has
  \<open>y = rowCount * cellHeight + startY\<close>, and any two consecutive waypoints differ in
  exactly one of \<open>x\<close> and \<open>y\<close>.
\<close>

theorem traceLadderPath_waypoints_exact:
  fixes cellWidth cellHeight startY :: int
  assumes "validRandom rnd" "2 \<le> playerCount cfg" "playerCount cfg \<le> 1024"
    "startCol < nat (playerCount cfg)"
    "1 \<le> cellWidth" "cellWidth \<le> 2 ^ 20" "1 \<le> cellHeight" "cellHeight \<le> 2 ^ 20"
    "\<bar>startY\<bar> \<le> 2 ^ 20"
  shows "\<exists>ld k' tr. generateLadder rnd cfg k = Inr (ld, k') \<and>
     traceLadderPath ld startCol (nat (playerCount cfg))
         (Finite (of_int cellWidth)) (Finite (of_int cellHeight)) (Finite (of_int startY)) = Inr tr \<and>
     hd (path tr) = \<lparr>pt_x = Finite (real startCol * of_int cellWidth + of_int cellWidth / 2 + 50),
                      pt_y = Finite (of_int startY)\<rparr> \<and>
     pt_y (last (path tr)) = Finite (real (rowCount ld) * of_int cellHeight + of_int startY) \<and>
     movesAxisAligned (path tr)"
proof -
  from generateLadder_layout_rows [OF assms(1,2,3), of k]
  obtain ld k' where ld: "generateLadder rnd cfg k = Inr (ld, k')"
    "rowCount ld = length (rungs ld)" "0 < rowCount ld" "rowCount ld \<le> 2 ^ 20"
    by blast
  have n: "nat (playerCount cfg) \<le> 2 ^ 20"
    using assms(3) by simp
  from traceLadderPath_shape [OF assms(5,6,7,8,9) n assms(4) ld(2,3,4)]
  show ?thesis
    using ld(1) by blast
qed

theorem traceLadderPath_waypoints_exact_witness:
  "\<exists>ld k' tr. generateLadder (constRandom (1 / 2)) \<lparr>playerCount = 4, excludeSelf = False\<rparr> 0 = Inr (ld, k') \<and>
     traceLadderPath ld 1 4 (Finite 60) (Finite 28) (Finite 40) = Inr tr \<and>
     hd (path tr) = \<lparr>pt_x = Finite 140, pt_y = Finite 40\<rparr> \<and>
     pt_y (last (path tr)) = Finite (real (rowCount ld) * 28 + 40) \<and>
     movesAxisAligned (path tr)"
  using traceLadderPath_waypoints_exact
    [of "constRandom (1 / 2)" "\<lparr>playerCount = 4, excludeSelf = False\<rparr>" 1 60 28 40 0]
  by (simp add: validRandom_constRandom)

lemma getY_rounds_to_startY:
  assumes "row \<le> 12"
  shows "getY (Finite (1 / 2 ^ 60)) (Finite 40) row = Finite 40"
    and "jsAdd (jsMul (Finite (real row)) (Finite (1 / 2 ^ 60))) (Finite 40) = Finite 40"
proof -
  have 1: "fl (real row * (1 / 2 ^ 60)) = Finite (real row / 2 ^ 60)"
    using fl_dyadic [of "int row" 60] assms by simp
  have small: "real row / 2 ^ 60 < 1 / 2 ^ 48"
  proof -
    have "real row / 2 ^ 60 \<le> 12 / 2 ^ 60"
      using assms by (simp add: divide_right_mono)
    also have "\<dots> < 1 / 2 ^ 48"
      by simp
    finally show ?thesis .
  qed
  have 2: "fl (real row / 2 ^ 60 + 40) = Finite 40"
    using fl_absorbed_at_40 [of "real row / 2 ^ 60"] small by (simp add: add.commute)
  have 3: "fl (1 / 2 ^ 60 / 2) = Finite (1 / 2 ^ 61)"
    using fl_dyadic [of 1 61] by simp
  have 4: "fl (40 + 1 / 2 ^ 61) = Finite 40"
    by (rule fl_absorbed_at_40) simp_all
  have m: "jsMul (Finite (real row)) (Finite (1 / 2 ^ 60)) = Finite (real row / 2 ^ 60)"
    by (simp only: jsMul.simps 1)
  show sum: "jsAdd (jsMul (Finite (real row)) (Finite (1 / 2 ^ 60))) (Finite 40) = Finite 40"
    by (simp only: m jsAdd.simps 2)
  have h: "jsHalf (Finite (1 / 2 ^ 60)) = Finite (1 / 2 ^ 61)"
    by (simp only: jsHalf.simps 3)
  show "getY (Finite (1 / 2 ^ 60)) (Finite 40) row = Finite 40"
    by (simp only: getY_def sum h jsAdd.simps 4)
qed

lemma getX_60_0: "getX (Finite 60) 0 = Finite 80"
  using getX_exact [of 60 0] by simp

text \<open>
  C8 as stated fails: with \<open>cellWidth = 60\<close>, \<open>cellHeight = 2^(-60)\<close> and
  \<open>startY = 40\<close>, both positive, every y that the tracer computes rounds to \<open>40\<close>.
  On the layout without rungs that two players get when the random source always
  returns \<open>0\<close>, the path from column \<open>0\<close> is fourteen times the waypoint \<open>(80, 40)\<close>,
  and consecutive waypoints differ in neither coordinate.
\<close>

theorem traceLadderPath_rounding_counterexample:
  "generateLadder (constRandom 0) \<lparr>playerCount = 2, excludeSelf = False\<rparr> 0
     = Inr (\<lparr>rungs = replicate 12 [False], rowCount = 12\<rparr>, 12) \<and>
   traceLadderPath \<lparr>rungs = replicate 12 [False], rowCount = 12\<rparr> 0 2
       (Finite 60) (Finite (1 / 2 ^ 60)) (Finite 40)
     = Inr \<lparr>path = replicate 14 \<lparr>pt_x = Finite 80, pt_y = Finite 40\<rparr>, finalColumn = 0\<rparr> \<and>
   \<not> movesAxisAligned (replicate 14 \<lparr>pt_x = Finite 80, pt_y = Finite 40\<rparr>)"
proof -
  define cw where "cw = Finite 60"
  define ch where "ch = Finite (1 / 2 ^ 60)"
  define sy where "sy = Finite 40"
  define P where "P = \<lparr>pt_x = Finite 80, pt_y = Finite 40\<rparr>"
  have A: "generateLadder (constRandom 0) \<lparr>playerCount = 2, excludeSelf = False\<rparr> 0
     = Inr (\<lparr>rungs = replicate 12 [False], rowCount = 12\<rparr>, 12)"
    by code_simp
  have "emptyRow [False]"
    by (auto simp: emptyRow_def rungAt_def)
  then have rows: "\<forall>r\<in>set [0..<12]. r < length (replicate 12 [False]) \<and> emptyRow (replicate 12 [False] ! r)"
    by simp
  have gx: "getX cw 0 = Finite 80"
    unfolding cw_def by (rule getX_60_0)
  have gy: "getY ch sy r = Finite 40" if "r \<le> 12" for r
    unfolding ch_def sy_def using that by (rule getY_rounds_to_startY(1))
  have fin: "jsAdd (jsMul (Finite 12) ch) sy = Finite 40"
    unfolding ch_def sy_def using getY_rounds_to_startY(2) [of 12] by simp
  have start: "\<lparr>pt_x = Finite 80, pt_y = sy\<rparr> = P"
    by (simp add: sy_def P_def)
  have pts: "map (\<lambda>r. \<lparr>pt_x = getX cw 0, pt_y = getY ch sy r\<rparr>) [0..<12] = replicate 12 P"
  proof -
    have "map (\<lambda>r. \<lparr>pt_x = getX cw 0, pt_y = getY ch sy r\<rparr>) [0..<12] = map (\<lambda>r. P) [0..<12]"
      by (rule map_cong) (simp_all add: gx gy P_def)
    then show ?thesis
      by (simp add: map_replicate_const)
  qed
  have r14: "(P # replicate 12 P) @ [P] = replicate 14 P"
    by (simp add: numeral_eq_Suc replicate_append_same)
  have tr: "traceRows (replicate 12 [False]) 2 cw ch sy [0..<12] 0 [P] = Inr (0, P # replicate 12 P)"
    unfolding traceRows_no_rungs [OF rows] pts by simp
  have "traceLadderPath \<lparr>rungs = replicate 12 [False], rowCount = 12\<rparr> 0 2 cw ch sy
     = Inr \<lparr>path = replicate 14 P, finalColumn = 0\<rparr>"
    using r14 by (simp add: traceLadderPath_def start tr gx fin P_def [symmetric])
  then have B: "traceLadderPath \<lparr>rungs = replicate 12 [False], rowCount = 12\<rparr> 0 2
       (Finite 60) (Finite (1 / 2 ^ 60)) (Finite 40)
     = Inr \<lparr>path = replicate 14 \<lparr>pt_x = Finite 80, pt_y = Finite 40\<rparr>, finalColumn = 0\<rparr>"
    unfolding cw_def ch_def sy_def P_def .
  have "\<not> differsInExactlyOne (replicate 14 P ! 0) (replicate 14 P ! (0 + 1))"
    by (simp add: differsInExactlyOne_def strictNeq_def strictEq_def P_def)
  moreover have "(0::nat) \<in> set [0..<length (replicate 14 P) - 1]"
    by simp
  ultimately have "\<not> movesAxisAligned (replicate 14 P)"
    unfolding movesAxisAligned_def list_all_iff by blast
  then have C: "\<not> movesAxisAligned (replicate 14 \<lparr>pt_x = Finite 80, pt_y = Finite 40\<rparr>)"
    unfolding P_def .
  from A B C show ?thesis by blast
qed


text \<open>
  C9 as the code has it: under the same exact geometry (integer \<open>cellWidth\<close>,
  \<open>cellHeight\<close> in \<open>[1, 2^20]\<close>, integer \<open>startY\<close> with \<open>|startY| \<le> 2^20\<close>,
  \<open>2 \<le> playerCount \<le> 1024\<close>), every move of a traced path is vertical-only or
  horizontal-only, the first and the last move are vertical, and no two consecutive
  moves are both horizontal, so every rung crossing lies between two vertical moves.
  Two consecutive moves can both be vertical: the tracer emits a waypoint at every row,
  also where the column crosses no rung.
\<close>

theorem traceLadderPath_moves_exact:
  fixes cellWidth cellHeight startY :: int
  assumes "validRandom rnd" "2 \<le> playerCount cfg" "playerCount cfg \<le> 1024"
    "startCol < nat (playerCount cfg)"
    "1 \<le> cellWidth" "cellWidth \<le> 2 ^ 20" "1 \<le> cellHeight" "cellHeight \<le> 2 ^ 20"
    "\<bar>startY\<bar> \<le> 2 ^ 20"
  shows "\<exists>ld k' tr. generateLadder rnd cfg k = Inr (ld, k') \<and>
     traceLadderPath ld startCol (nat (playerCount cfg))
         (Finite (of_int cellWidth)) (Finite (of_int cellHeight)) (Finite (of_int startY)) = Inr tr \<and>
     movesAxisAligned (path tr) \<and> noConsecutiveHorizontal (path tr) \<and>
     isVerticalMove (path tr ! 0) (path tr ! 1) \<and>
     isVerticalMove (path tr ! (length (path tr) - 2)) (last (path tr))"
proof -
  from generateLadder_layout_rows [OF assms(1,2,3), of k]
  obtain ld k' where ld: "generateLadder rnd cfg k = Inr (ld, k')"
    "rowCount ld = length (rungs ld)" "0 < rowCount ld" "rowCount ld \<le> 2 ^ 20"
    by blast
  have n: "nat (playerCount cfg) \<le> 2 ^ 20"
    using assms(3) by simp
  from traceLadderPath_shape [OF assms(5,6,7,8,9) n assms(4) ld(2,3,4)]
  show ?thesis
    using ld(1) by blast
qed

theorem traceLadderPath_moves_exact_witness:
  "\<exists>ld k' tr. generateLadder (constRandom (1 / 2)) \<lparr>playerCount = 3, excludeSelf = True\<rparr> 0 = Inr (ld, k') \<and>
     traceLadderPath ld 2 3 (Finite 100) (Finite 50) (Finite 80) = Inr tr \<and>
     movesAxisAligned (path tr) \<and> noConsecutiveHorizontal (path tr) \<and>
     isVerticalMove (path tr ! 0) (path tr ! 1) \<and>
     isVerticalMove (path tr ! (length (path tr) - 2)) (last (path tr))"
  using traceLadderPath_moves_exact
    [of "constRandom (1 / 2)" "\<lparr>playerCount = 3, excludeSelf = True\<rparr>" 2 100 50 80 0]
  by (simp add: validRandom_constRandom)

text \<open>
  C9 as stated fails: with two players, no \<open>excludeSelf\<close> and a random source that
  always returns \<open>0\<close>, the generated layout has no rung, and the path from column \<open>0\<close>
  (unit geometry) is a sequence of vertical moves.
\<close>

theorem traceLadderPath_alternation_counterexample:
  "generateLadder (constRandom 0) \<lparr>playerCount = 2, excludeSelf = False\<rparr> 0
     = Inr (\<lparr>rungs = replicate 12 [False], rowCount = 12\<rparr>, 12) \<and>
   \<not> isl (traceLadderPath \<lparr>rungs = replicate 12 [False], rowCount = 12\<rparr> 0 2
            (Finite 1) (Finite 1) (Finite 0)) \<and>
   \<not> strictlyAlternating
       (path (projr (traceLadderPath \<lparr>rungs = replicate 12 [False], rowCount = 12\<rparr> 0 2
                       (Finite 1) (Finite 1) (Finite 0))))"
proof -
  define cw where "cw = Finite 1"
  define ch where "ch = Finite 1"
  define sy where "sy = Finite 0"
  define x0 where "x0 = Finite (101 / 2)"
  define f where "f = (\<lambda>r. \<lparr>pt_x = getX cw 0, pt_y = getY ch sy r\<rparr>)"
  define start where "start = \<lparr>pt_x = getX cw 0, pt_y = sy\<rparr>"
  define final where "final = \<lparr>pt_x = getX cw 0, pt_y = jsAdd (jsMul (Finite 12) ch) sy\<rparr>"
  define pth where "pth = (start # map f [0..<12]) @ [final]"
  have A: "generateLadder (constRandom 0) \<lparr>playerCount = 2, excludeSelf = False\<rparr> 0
     = Inr (\<lparr>rungs = replicate 12 [False], rowCount = 12\<rparr>, 12)"
    by code_simp
  have "emptyRow [False]"
    by (auto simp: emptyRow_def rungAt_def)
  then have rows: "\<forall>r\<in>set [0..<12]. r < length (replicate 12 [False]) \<and> emptyRow (replicate 12 [False] ! r)"
    by simp
  have tr: "traceRows (replicate 12 [False]) 2 cw ch sy [0..<12] 0 [start] = Inr (0, start # map f [0..<12])"
    unfolding traceRows_no_rungs [OF rows] f_def by simp
  have res: "traceLadderPath \<lparr>rungs = replicate 12 [False], rowCount = 12\<rparr> 0 2 cw ch sy
     = Inr \<lparr>path = pth, finalColumn = 0\<rparr>"
    by (simp add: traceLadderPath_def start_def [symmetric] tr pth_def final_def)
  have gx: "getX cw 0 = x0"
    unfolding cw_def x0_def using getX_exact [of 1 0] by simp
  have gy0: "getY ch sy 0 = Finite (1 / 2)" and gy1: "getY ch sy (Suc 0) = Finite (3 / 2)"
    unfolding ch_def sy_def using getY_exact [of 1 0 0] getY_exact [of 1 0 1] by simp_all
  have p0: "pth ! 0 = \<lparr>pt_x = x0, pt_y = Finite 0\<rparr>"
    by (simp add: pth_def start_def gx sy_def)
  have p1: "pth ! (0 + 1) = \<lparr>pt_x = x0, pt_y = Finite (1 / 2)\<rparr>"
    by (simp add: pth_def nth_append f_def gx gy0)
  have p2: "pth ! (0 + 2) = \<lparr>pt_x = x0, pt_y = Finite (3 / 2)\<rparr>"
    by (simp add: pth_def nth_append f_def gx gy1 numeral_2_eq_2)
  have two: "isVerticalMove (pth ! 0) (pth ! (0 + 1)) \<and> isVerticalMove (pth ! (0 + 1)) (pth ! (0 + 2))"
    unfolding p0 p1 p2 by (simp add: isVerticalMove_def strictEq_def strictNeq_def x0_def)
  have "(0::nat) \<in> set [0..<length pth - 2]"
    by (simp add: pth_def)
  with two have C: "\<not> strictlyAlternating pth"
    unfolding strictlyAlternating_def list_all_iff by blast
  have "\<not> isl (traceLadderPath \<lparr>rungs = replicate 12 [False], rowCount = 12\<rparr> 0 2 cw ch sy)"
    "\<not> strictlyAlternating
       (path (projr (traceLadderPath \<lparr>rungs = replicate 12 [False], rowCount = 12\<rparr> 0 2 cw ch sy)))"
    using C by (simp_all add: res)
  then show ?thesis
    using A unfolding cw_def ch_def sy_def by blast
qed

end
